theory Spec2Isabelle
  imports Complex_Main
begin

section \<open>Data model\<close>

text \<open>
  Python floats are modelled by \<^typ>\<open>real\<close>: every result below is about the program
  under exact arithmetic (no rounding, no NaN, no infinities). Python's unbounded
  integers are \<^typ>\<open>int\<close>.

  A computation returns a value of \<open>error + 'a\<close>: \<open>Inl e\<close> when the source raises
  \<open>e\<close>, \<open>Inr v\<close> when it returns \<open>v\<close>. All exceptions the repository raises
  itself are \<open>ValueError\<close>s, told apart by their message; the one message that is
  an f-string carries the formatted number beside its fixed prefix.
\<close>

datatype error =
    ValueError string
  | ValueError_fmt string real
  | IndexError
  | ZeroDivisionError

text \<open>\<open>@dataclass(frozen=True) class TargetPlayer: name: str; p: float\<close>\<close>

record TargetPlayer =
  name :: string
  p :: real

section \<open>Python primitives used by the sources\<close>

text \<open>\<open>int(x)\<close> on a float truncates toward zero.\<close>

definition py_int :: "real \<Rightarrow> int" where
  "py_int x = (if 0 \<le> x then \<lfloor>x\<rfloor> else \<lceil>x\<rceil>)"

text \<open>\<open>xs[i]\<close>: a negative index counts from the end, an index out of range raises.\<close>

definition getitem :: "'a list \<Rightarrow> int \<Rightarrow> error + 'a" where
  "getitem xs i =
     (if 0 \<le> i \<and> i < int (length xs) then Inr (xs ! nat i)
      else if i < 0 \<and> - int (length xs) \<le> i then Inr (xs ! nat (int (length xs) + i))
      else Inl IndexError)"

section \<open>main.py: quantile\<close>

text \<open>
  \<^verbatim>\<open>
  def quantile(sorted_vals: list[int], q: float) -> float:
      if not 0 <= q <= 1:
          raise ValueError("q must be within [0,1]")
      n = len(sorted_vals)
      if n == 0:
          raise ValueError("empty list")
      pos = (n - 1) * q
      lo = int(pos)
      hi = min(lo + 1, n - 1)
      frac = pos - lo
      return sorted_vals[lo] * (1 - frac) + sorted_vals[hi] * frac
  \<close>
  The function does not sort: it reads the list in the order it is given.
\<close>

definition quantile :: "int list \<Rightarrow> real \<Rightarrow> error + real" where
  "quantile sorted_vals q =
     (if \<not> (0 \<le> q \<and> q \<le> 1) then Inl (ValueError ''q must be within [0,1]'')
      else
        let n = int (length sorted_vals) in
        if n = 0 then Inl (ValueError ''empty list'')
        else
          let pos = real_of_int (n - 1) * q;
              lo = py_int pos;
              hi = min (lo + 1) (n - 1);
              frac = pos - real_of_int lo
          in (case getitem sorted_vals lo of
                Inl e \<Rightarrow> Inl e
              | Inr a \<Rightarrow>
                  (case getitem sorted_vals hi of
                     Inl e \<Rightarrow> Inl e
                   | Inr b \<Rightarrow> Inr (real_of_int a * (1 - frac) + real_of_int b * frac))))"

text \<open>
  The error kinds of the specification are the source's \<open>ValueError\<close>s with these
  messages.
\<close>

definition InvalidQuantile :: error where
  "InvalidQuantile = ValueError ''q must be within [0,1]''"

definition EmptyResultSet :: error where
  "EmptyResultSet = ValueError ''empty list''"

text \<open>
  The quantile as the specification words it: sort ascending, take the fractional rank
  \<open>pos = (n - 1) * q\<close>, and interpolate linearly between the values at the floor and at
  the ceiling of \<open>pos\<close>. \<open>interpolate\<close> is the interpolation on a list as given;
  \<open>quantile_spec\<close> sorts first.
\<close>

definition interpolate :: "int list \<Rightarrow> real \<Rightarrow> real" where
  "interpolate vs pos =
     (let f = nat \<lfloor>pos\<rfloor>; c = nat \<lceil>pos\<rceil>
      in real_of_int (vs ! f) + (pos - real f) * (real_of_int (vs ! c) - real_of_int (vs ! f)))"

definition quantile_spec :: "int list \<Rightarrow> real \<Rightarrow> real" where
  "quantile_spec vals q = interpolate (sort vals) (real (length vals - 1) * q)"

section \<open>The random generator\<close>

text \<open>
  A \<open>random.Random\<close> object is modelled by the sequence of floats its successive
  \<open>random()\<close> calls will return: \<open>g 0\<close> is the next value. One call returns that
  value and leaves the generator with the rest of the sequence. Python's \<open>random()\<close>
  returns values in \<open>[0, 1)\<close>; nothing below depends on that range.
\<close>

type_synonym rng = "nat \<Rightarrow> real"

definition rng_random :: "rng \<Rightarrow> real \<times> rng" where
  "rng_random g = (g 0, \<lambda>i. g (Suc i))"

text \<open>The generator after \<open>k\<close> calls of \<open>random()\<close>.\<close>

definition advance :: "nat \<Rightarrow> rng \<Rightarrow> rng" where
  "advance k g = (\<lambda>i. g (i + k))"

text \<open>
  The two ways the sources construct a generator: \<open>random.Random(seed)\<close>, a function
  of the seed, and \<open>random.Random()\<close>, seeded from the operating system. The Mersenne
  Twister itself is not modelled: both are parameters.
\<close>

record pyrandom =
  seeded :: "int \<Rightarrow> rng"
  unseeded :: rng

text \<open>
  \<open>rng.choices(population, weights=weights, k=1)[0]\<close> of the standard library:
  \<^verbatim>\<open>
  cum_weights = list(accumulate(weights))
  if len(cum_weights) != n: raise ValueError(...)
  total = cum_weights[-1] + 0.0
  if total <= 0.0: raise ValueError('Total of weights must be greater than zero')
  hi = n - 1
  return [population[bisect(cum_weights, random() * total, 0, hi)] ...]
  \<close>
  \<open>accumulate\<close> yields the running sums; \<open>bisect\<close> is \<open>bisect_right\<close>, the binary
  search below, which reads only indices \<open>mid < hi\<close>.
\<close>

fun accumulate_from :: "real \<Rightarrow> real list \<Rightarrow> real list" where
  "accumulate_from tot [] = []"
| "accumulate_from tot (w # ws) = (tot + w) # accumulate_from (tot + w) ws"

definition accumulate :: "real list \<Rightarrow> real list" where
  "accumulate ws = (case ws of [] \<Rightarrow> [] | w # ws' \<Rightarrow> w # accumulate_from w ws')"

function bisect :: "real list \<Rightarrow> real \<Rightarrow> nat \<Rightarrow> nat \<Rightarrow> nat" where
  "bisect a x lo hi =
     (if lo < hi then
        (let mid = (lo + hi) div 2
         in if x < a ! mid then bisect a x lo mid else bisect a x (mid + 1) hi)
      else lo)"
  by pat_completeness auto
termination
  by (relation "measure (\<lambda>(a, x, lo, hi). hi - lo)") auto

declare bisect.simps [simp del]

definition choices :: "rng \<Rightarrow> string list \<Rightarrow> real list \<Rightarrow> error + (string \<times> rng)" where
  "choices g population weights =
     (let n = length population;
          cum_weights = accumulate weights
      in if length cum_weights \<noteq> n then
           Inl (ValueError ''The number of weights does not match the population'')
         else if cum_weights = [] then Inl IndexError
         else
           let tot = last cum_weights in
           if tot \<le> 0 then Inl (ValueError ''Total of weights must be greater than zero'')
           else
             let (u, g') = rng_random g
             in Inr (population ! bisect cum_weights (u * tot) 0 (n - 1), g'))"

section \<open>simulation.py\<close>

subsection \<open>\<open>_build_distribution\<close>\<close>

text \<open>
  \<^verbatim>\<open>
  def _build_distribution(players):
      if any(pl.p < 0 for pl in players):
          raise ValueError("Probabilities must be non-negative.")
      p_hit = sum(pl.p for pl in players)
      if p_hit > 1.0:
          raise ValueError(f"Sum of target probabilities exceeds 1.0: {p_hit}")
      outcomes = [pl.name for pl in players] + ["OTHER"]
      probs = [pl.p for pl in players] + [1.0 - p_hit]
      s = sum(probs)
      probs = [p / s for p in probs]
      return outcomes, probs
  \<close>
  The division raises \<open>ZeroDivisionError\<close> when \<open>s\<close> is zero; that branch is written
  out and shown unreachable below.
\<close>

definition build_distribution :: "TargetPlayer list \<Rightarrow> error + (string list \<times> real list)" where
  "build_distribution players =
     (if list_ex (\<lambda>pl. p pl < 0) players then
        Inl (ValueError ''Probabilities must be non-negative.'')
      else
        let p_hit = sum_list (map p players) in
        if p_hit > 1 then
          Inl (ValueError_fmt ''Sum of target probabilities exceeds 1.0: '' p_hit)
        else
          let outcomes = map name players @ [''OTHER''];
              probs = map p players @ [1 - p_hit];
              s = sum_list probs
          in if s = 0 then Inl ZeroDivisionError
             else Inr (outcomes, map (\<lambda>w. w / s) probs))"

definition InvalidProbability :: error where
  "InvalidProbability = ValueError ''Probabilities must be non-negative.''"

definition ProbabilityBudgetExceeded :: "real \<Rightarrow> error" where
  "ProbabilityBudgetExceeded p_hit =
     ValueError_fmt ''Sum of target probabilities exceeds 1.0: '' p_hit"

subsection \<open>\<open>run_single_trial\<close>\<close>

text \<open>
  \<^verbatim>\<open>
  def run_single_trial(players, rng=None):
      rng = rng or random.Random()
      outcomes, probs = _build_distribution(players)
      target_set = {pl.name for pl in players}
      collected = set()
      packs_opened = 0
      while collected != target_set:
          packs_opened += 1
          draw = rng.choices(outcomes, weights=probs, k=1)[0]
          if draw != "OTHER":
              collected.add(draw)
      return packs_opened
  \<close>
  The loop's variables are the state \<open>trial_state\<close>; \<open>trial_step\<close> is one run of the
  loop body and \<open>trial_loop\<close> the \<open>while\<close> loop. The loop may run forever, so it is
  a partial function: \<open>None\<close> means that it does not return, \<open>Some (Inl e)\<close> that it
  raises \<open>e\<close>, \<open>Some (Inr (packs_opened, rng))\<close> that it returns, leaving the
  generator in state \<open>rng\<close>.
\<close>

record trial_state =
  collected :: "string set"
  packs_opened :: nat
  gen :: rng

definition trial_step :: "string list \<Rightarrow> real list \<Rightarrow> trial_state \<Rightarrow> error + trial_state" where
  "trial_step outcomes probs st =
     (case choices (gen st) outcomes probs of
        Inl e \<Rightarrow> Inl e
      | Inr (draw, g') \<Rightarrow>
          Inr \<lparr>collected = (if draw \<noteq> ''OTHER'' then insert draw (collected st)
                             else collected st),
               packs_opened = packs_opened st + 1,
               gen = g'\<rparr>)"

partial_function (option) trial_loop ::
  "string list \<Rightarrow> real list \<Rightarrow> string set \<Rightarrow> trial_state \<Rightarrow> (error + nat \<times> rng) option"
where
  "trial_loop outcomes probs target_set st =
     (if collected st \<noteq> target_set then
        (case trial_step outcomes probs st of
           Inl e \<Rightarrow> Some (Inl e)
         | Inr st' \<Rightarrow> trial_loop outcomes probs target_set st')
      else Some (Inr (packs_opened st, gen st)))"

text \<open>
  A \<open>random.Random\<close> object is truthy, so \<open>rng or random.Random()\<close> takes the fresh
  generator exactly when \<open>rng\<close> is \<open>None\<close>. The last argument and the last component
  of the result are instrumentation, not program state: the number of calls of
  \<open>_build_distribution\<close> made so far.
\<close>

definition run_single_trial ::
  "pyrandom \<Rightarrow> TargetPlayer list \<Rightarrow> rng option \<Rightarrow> nat \<Rightarrow> (error + nat \<times> rng \<times> nat) option"
where
  "run_single_trial lib players rng builds =
     (let g = (case rng of None \<Rightarrow> unseeded lib | Some g \<Rightarrow> g) in
      case build_distribution players of
        Inl e \<Rightarrow> Some (Inl e)
      | Inr (outcomes, probs) \<Rightarrow>
          let target_set = set (map name players);
              st = \<lparr>collected = {}, packs_opened = 0, gen = g\<rparr>
          in (case trial_loop outcomes probs target_set st of
                None \<Rightarrow> None
              | Some (Inl e) \<Rightarrow> Some (Inl e)
              | Some (Inr (packs, g')) \<Rightarrow> Some (Inr (packs, g', builds + 1))))"

subsection \<open>\<open>run_many_trials\<close>\<close>

text \<open>
  \<^verbatim>\<open>
  def run_many_trials(players, n_trials, seed=42):
      if n_trials <= 0:
          raise ValueError("n_trials must be > 0")
      rng = random.Random(seed)
      return [run_single_trial(players, rng=rng) for _ in range(n_trials)]
  \<close>
  \<open>trials\<close> is the list comprehension: \<open>k\<close> calls of \<open>run_single_trial\<close> on the one
  generator object, each starting where the previous one left it.
\<close>

fun trials ::
  "pyrandom \<Rightarrow> TargetPlayer list \<Rightarrow> nat \<Rightarrow> rng \<Rightarrow> nat \<Rightarrow> (error + nat list \<times> rng \<times> nat) option"
where
  "trials lib players 0 g builds = Some (Inr ([], g, builds))"
| "trials lib players (Suc k) g builds =
     (case run_single_trial lib players (Some g) builds of
        None \<Rightarrow> None
      | Some (Inl e) \<Rightarrow> Some (Inl e)
      | Some (Inr (r, g', builds')) \<Rightarrow>
          (case trials lib players k g' builds' of
             None \<Rightarrow> None
           | Some (Inl e) \<Rightarrow> Some (Inl e)
           | Some (Inr (rs, g'', builds'')) \<Rightarrow> Some (Inr (r # rs, g'', builds''))))"

definition run_many_trials ::
  "pyrandom \<Rightarrow> TargetPlayer list \<Rightarrow> int \<Rightarrow> int \<Rightarrow> nat \<Rightarrow> (error + nat list \<times> nat) option"
where
  "run_many_trials lib players n_trials seed builds =
     (if n_trials \<le> 0 then Some (Inl (ValueError ''n_trials must be > 0''))
      else
        (case trials lib players (nat n_trials) (seeded lib seed) builds of
           None \<Rightarrow> None
         | Some (Inl e) \<Rightarrow> Some (Inl e)
         | Some (Inr (rs, g, builds')) \<Rightarrow> Some (Inr (rs, builds'))))"

text \<open>
  The batch as the specification describes it: the distribution is built once, before
  the trials, and every trial runs the loop on that one distribution.
\<close>

fun trials_shared ::
  "string list \<Rightarrow> real list \<Rightarrow> string set \<Rightarrow> nat \<Rightarrow> rng \<Rightarrow> (error + nat list \<times> rng) option"
where
  "trials_shared outcomes probs target_set 0 g = Some (Inr ([], g))"
| "trials_shared outcomes probs target_set (Suc k) g =
     (case trial_loop outcomes probs target_set \<lparr>collected = {}, packs_opened = 0, gen = g\<rparr> of
        None \<Rightarrow> None
      | Some (Inl e) \<Rightarrow> Some (Inl e)
      | Some (Inr (r, g')) \<Rightarrow>
          (case trials_shared outcomes probs target_set k g' of
             None \<Rightarrow> None
           | Some (Inl e) \<Rightarrow> Some (Inl e)
           | Some (Inr (rs, g'')) \<Rightarrow> Some (Inr (r # rs, g''))))"

definition run_many_trials_build_once ::
  "pyrandom \<Rightarrow> TargetPlayer list \<Rightarrow> int \<Rightarrow> int \<Rightarrow> nat \<Rightarrow> (error + nat list \<times> nat) option"
where
  "run_many_trials_build_once lib players n_trials seed builds =
     (if n_trials \<le> 0 then Some (Inl (ValueError ''n_trials must be > 0''))
      else
        (case build_distribution players of
           Inl e \<Rightarrow> Some (Inl e)
         | Inr (outcomes, probs) \<Rightarrow>
             (case trials_shared outcomes probs (set (map name players)) (nat n_trials)
                     (seeded lib seed) of
                None \<Rightarrow> None
              | Some (Inl e) \<Rightarrow> Some (Inl e)
              | Some (Inr (rs, g)) \<Rightarrow> Some (Inr (rs, builds + 1)))))"

subsection \<open>Derived notions used to state the properties\<close>

text \<open>
  \<open>run_steps k\<close> runs the loop body \<open>k\<close> times, whatever the loop condition says:
  the state the loop is in after \<open>k\<close> iterations, if it gets that far.
\<close>

fun run_steps :: "string list \<Rightarrow> real list \<Rightarrow> nat \<Rightarrow> trial_state \<Rightarrow> error + trial_state" where
  "run_steps outcomes probs 0 st = Inr st"
| "run_steps outcomes probs (Suc k) st =
     (case trial_step outcomes probs st of
        Inl e \<Rightarrow> Inl e
      | Inr st' \<Rightarrow> run_steps outcomes probs k st')"

text \<open>
  \<open>first_hit outcomes probs t st k st'\<close>: started in state \<open>st\<close>, the loop body runs
  \<open>k\<close> times without raising, the state after these \<open>k\<close> iterations is \<open>st'\<close>, and
  \<open>st'\<close> is the first state in which the collected set equals \<open>t\<close>.
\<close>

definition first_hit ::
  "string list \<Rightarrow> real list \<Rightarrow> string set \<Rightarrow> trial_state \<Rightarrow> nat \<Rightarrow> trial_state \<Rightarrow> bool"
where
  "first_hit outcomes probs t st k st' \<longleftrightarrow>
     run_steps outcomes probs k st = Inr st' \<and> collected st' = t \<and>
     (\<forall>j<k. \<forall>sj. run_steps outcomes probs j st = Inr sj \<longrightarrow> collected sj \<noteq> t)"

text \<open>
  \<open>draws_of outcomes probs g k\<close>: the outcomes that \<open>k\<close> successive calls of
  \<open>rng.choices(outcomes, weights=probs, k=1)[0]\<close> return when the generator starts as
  \<open>g\<close>. \<open>draws players g k\<close>: the same for the distribution built from \<open>players\<close>, that
  is, the first \<open>k\<close> draws of a trial that gets that far.
\<close>

definition draws_of :: "string list \<Rightarrow> real list \<Rightarrow> rng \<Rightarrow> nat \<Rightarrow> string list" where
  "draws_of outcomes probs g k =
     concat (map (\<lambda>i. case choices (advance i g) outcomes probs of
                         Inl e \<Rightarrow> []
                       | Inr (d, g') \<Rightarrow> [d]) [0..<k])"

definition draws :: "TargetPlayer list \<Rightarrow> rng \<Rightarrow> nat \<Rightarrow> string list" where
  "draws players g k =
     (case build_distribution players of
        Inl e \<Rightarrow> []
      | Inr (outcomes, probs) \<Rightarrow> draws_of outcomes probs g k)"

text \<open>
  \<open>seen outcomes probs st k\<close>: the collected set after \<open>k\<close> iterations from \<open>st\<close>, read
  off the draws.
\<close>

definition seen :: "string list \<Rightarrow> real list \<Rightarrow> trial_state \<Rightarrow> nat \<Rightarrow> string set" where
  "seen outcomes probs st k =
     collected st \<union> (set (draws_of outcomes probs (gen st) k) - {''OTHER''})"

subsection \<open>The law of the draws\<close>






text \<open>
  \<open>cover_gen players\<close>: the generator whose \<open>i\<close>-th value is the sum of the first \<open>i\<close>
  probabilities, the left end of the interval of the \<open>i\<close>-th player in the cumulative
  weights.
\<close>

definition cover_gen :: "TargetPlayer list \<Rightarrow> rng" where
  "cover_gen players =
     (\<lambda>i. if i < length players then sum_list (take i (map p players)) else 0)"

text \<open>Concrete generators and players for the examples.\<close>

definition gen_const :: "real \<Rightarrow> rng" where
  "gen_const u = (\<lambda>i. u)"

definition gen_alt :: rng where
  "gen_alt = (\<lambda>i. if even i then 1/4 else 3/4)"

definition lib_alt :: pyrandom where
  "lib_alt = \<lparr>seeded = (\<lambda>seed. gen_alt), unseeded = gen_const 0\<rparr>"

definition player :: "string \<Rightarrow> real \<Rightarrow> TargetPlayer" where
  "player n q = \<lparr>name = n, p = q\<rparr>"

section \<open>Lemmas: quantile\<close>

lemma quantile_out_of_range:
  "\<not> (0 \<le> q \<and> q \<le> 1) \<Longrightarrow> quantile vs q = Inl InvalidQuantile"
  by (simp add: quantile_def InvalidQuantile_def)

lemma quantile_empty:
  "0 \<le> q \<Longrightarrow> q \<le> 1 \<Longrightarrow> quantile [] q = Inl EmptyResultSet"
  by (simp add: quantile_def EmptyResultSet_def)

lemma getitem_in_range:
  "0 \<le> i \<Longrightarrow> i < int (length xs) \<Longrightarrow> getitem xs i = Inr (xs ! nat i)"
  by (simp add: getitem_def)

lemma quantile_value:
  assumes "vs \<noteq> []" "0 \<le> q" "q \<le> 1"
  defines "pos \<equiv> real (length vs - 1) * q"
  shows "quantile vs q =
     Inr (real_of_int (vs ! nat \<lfloor>pos\<rfloor>) * (1 - (pos - real_of_int \<lfloor>pos\<rfloor>))
          + real_of_int (vs ! min (nat \<lfloor>pos\<rfloor> + 1) (length vs - 1)) * (pos - real_of_int \<lfloor>pos\<rfloor>))"
proof -
  have n: "0 < length vs" using assms(1) by simp
  have pos_eq: "(real (length vs) - 1) * q = pos"
    using assms(1) by (cases vs) (simp_all add: pos_def)
  have pos0: "0 \<le> pos" using assms by (simp add: pos_def)
  have "pos \<le> real (length vs - 1) * 1"
    unfolding pos_def using assms by (intro mult_left_mono) auto
  then have pos1: "pos \<le> real (length vs - 1)" by simp
  have fl0: "0 \<le> \<lfloor>pos\<rfloor>" using pos0 by simp
  have "\<lfloor>pos\<rfloor> \<le> \<lfloor>real (length vs - 1)\<rfloor>" using pos1 by (rule floor_mono)
  then have fl1: "\<lfloor>pos\<rfloor> \<le> int (length vs) - 1" using n by (simp add: of_nat_diff)
  have lo: "getitem vs \<lfloor>pos\<rfloor> = Inr (vs ! nat \<lfloor>pos\<rfloor>)"
    using fl0 fl1 by (simp add: getitem_in_range)
  have hi_eq: "nat (min (\<lfloor>pos\<rfloor> + 1) (int (length vs) - 1)) = min (nat \<lfloor>pos\<rfloor> + 1) (length vs - 1)"
    using fl0 fl1 n by linarith
  have hi: "getitem vs (min (\<lfloor>pos\<rfloor> + 1) (int (length vs) - 1))
      = Inr (vs ! min (nat \<lfloor>pos\<rfloor> + 1) (length vs - 1))"
  proof -
    have "0 \<le> min (\<lfloor>pos\<rfloor> + 1) (int (length vs) - 1)" using fl0 n by linarith
    moreover have "min (\<lfloor>pos\<rfloor> + 1) (int (length vs) - 1) < int (length vs)" by linarith
    ultimately show ?thesis using getitem_in_range hi_eq by metis
  qed
  show ?thesis
    using assms(1,2,3) pos0 lo hi
    by (simp add: quantile_def Let_def py_int_def pos_eq)
qed

lemma interpolate_eq:
  assumes "0 \<le> pos" "pos \<le> real (length vs - 1)"
  shows "real_of_int (vs ! nat \<lfloor>pos\<rfloor>) * (1 - (pos - real_of_int \<lfloor>pos\<rfloor>))
          + real_of_int (vs ! min (nat \<lfloor>pos\<rfloor> + 1) (length vs - 1)) * (pos - real_of_int \<lfloor>pos\<rfloor>)
       = interpolate vs pos"
proof (cases "pos = real_of_int \<lfloor>pos\<rfloor>")
  case True
  then have "\<lceil>pos\<rceil> = \<lfloor>pos\<rfloor>" by (metis ceiling_of_int)
  with True assms show ?thesis by (simp add: interpolate_def Let_def)
next
  case False
  then have c: "\<lceil>pos\<rceil> = \<lfloor>pos\<rfloor> + 1"
    by (metis ceiling_altdef of_int_floor_cancel) 
  have fl0: "0 \<le> \<lfloor>pos\<rfloor>" using assms by simp
  have "\<lceil>pos\<rceil> \<le> \<lceil>real (length vs - 1)\<rceil>" using assms(2) by (rule ceiling_mono)
  then have "\<lfloor>pos\<rfloor> + 1 \<le> int (length vs - 1)" using c by simp
  then have m: "min (nat \<lfloor>pos\<rfloor> + 1) (length vs - 1) = nat \<lfloor>pos\<rfloor> + 1"
    using fl0 by linarith
  have r: "real (nat \<lfloor>pos\<rfloor>) = real_of_int \<lfloor>pos\<rfloor>" using fl0 by simp
  have cn: "nat \<lceil>pos\<rceil> = nat \<lfloor>pos\<rfloor> + 1" using c fl0 by (simp add: nat_add_distrib)
  show ?thesis
    unfolding interpolate_def Let_def m cn r by (simp add: algebra_simps)
qed

lemma quantile_interpolate:
  assumes "vs \<noteq> []" "0 \<le> q" "q \<le> 1"
  shows "quantile vs q = Inr (interpolate vs (real (length vs - 1) * q))"
proof -
  let ?pos = "real (length vs - 1) * q"
  have 0: "0 \<le> ?pos" using assms by simp
  have "?pos \<le> real (length vs - 1) * 1"
    using assms by (intro mult_left_mono) auto
  then have 1: "?pos \<le> real (length vs - 1)" by simp
  show ?thesis
    unfolding quantile_value[OF assms] interpolate_eq[OF 0 1] ..
qed

lemma quantile_sorted:
  assumes "vs \<noteq> []" "0 \<le> q" "q \<le> 1" "sorted vs"
  shows "quantile vs q = Inr (quantile_spec vs q)"
  using quantile_interpolate[OF assms(1-3)] assms(4)
  by (simp add: quantile_spec_def sort_key_id_if_sorted)

lemma quantile_examples:
  "quantile [1, 2, 3, 4] (1/2) = Inr (5/2)"
  "quantile [1, 2, 3, 4] 0 = Inr 1"
  "quantile [1, 2, 3, 4] 1 = Inr 4"
  by (simp_all add: quantile_def getitem_def py_int_def Let_def)

section \<open>Lemmas: the distribution builder\<close>

lemma build_distribution_valid:
  assumes "\<not> (\<exists>pl \<in> set players. p pl < 0)" "sum_list (map p players) \<le> 1"
  shows "build_distribution players =
           Inr (map name players @ [''OTHER''],
                map p players @ [1 - sum_list (map p players)])"
  using assms by (simp add: build_distribution_def list_ex_iff Let_def)

lemma build_distribution_negative:
  "\<exists>pl \<in> set players. p pl < 0 \<Longrightarrow> build_distribution players = Inl InvalidProbability"
  by (simp add: build_distribution_def list_ex_iff InvalidProbability_def)

lemma build_distribution_exceeds:
  "\<not> (\<exists>pl \<in> set players. p pl < 0) \<Longrightarrow> 1 < sum_list (map p players) \<Longrightarrow>
   build_distribution players = Inl (ProbabilityBudgetExceeded (sum_list (map p players)))"
  by (simp add: build_distribution_def list_ex_iff ProbabilityBudgetExceeded_def Let_def)

lemma error_kinds_distinct:
  "InvalidProbability \<noteq> ProbabilityBudgetExceeded x"
  by (simp add: InvalidProbability_def ProbabilityBudgetExceeded_def)

lemma build_distribution_cases:
  "(build_distribution players = Inl InvalidProbability \<longleftrightarrow> (\<exists>pl \<in> set players. p pl < 0)) \<and>
   ((\<exists>x. build_distribution players = Inl (ProbabilityBudgetExceeded x)) \<longleftrightarrow>
      \<not> (\<exists>pl \<in> set players. p pl < 0) \<and> 1 < sum_list (map p players)) \<and>
   ((\<exists>d. build_distribution players = Inr d) \<longleftrightarrow>
      \<not> (\<exists>pl \<in> set players. p pl < 0) \<and> sum_list (map p players) \<le> 1)"
proof (cases "\<exists>pl \<in> set players. p pl < 0")
  case True
  from build_distribution_negative[OF True] True error_kinds_distinct show ?thesis by auto
next
  case False
  show ?thesis
  proof (cases "1 < sum_list (map p players)")
    case True
    from build_distribution_exceeds[OF False True] False True error_kinds_distinct[symmetric]
    show ?thesis by auto
  next
    case le: False
    then have "sum_list (map p players) \<le> 1" by simp
    from build_distribution_valid[OF False this] False le show ?thesis by auto
  qed
qed

lemma build_distribution_Inr:
  assumes "build_distribution players = Inr (outcomes, probs)"
  shows "\<not> (\<exists>pl \<in> set players. p pl < 0) \<and> sum_list (map p players) \<le> 1 \<and>
         outcomes = map name players @ [''OTHER''] \<and>
         probs = map p players @ [1 - sum_list (map p players)]"
proof -
  have a: "\<not> (\<exists>pl \<in> set players. p pl < 0)"
    using assms build_distribution_negative by fastforce
  have b: "sum_list (map p players) \<le> 1"
    using assms a build_distribution_exceeds[of players] by fastforce
  from build_distribution_valid[OF a b] assms a b show ?thesis by simp
qed

lemma build_distribution_wf:
  assumes "build_distribution players = Inr (outcomes, probs)"
  shows "length probs = length outcomes" "outcomes \<noteq> []" "0 < sum_list probs"
    "set outcomes = insert ''OTHER'' (set (map name players))"
  using build_distribution_Inr[OF assms] by auto

section \<open>Lemmas: the generator and the sampler\<close>

lemma advance_Suc: "(\<lambda>i. g (Suc i)) = advance 1 g"
  by (simp add: advance_def)

lemma advance_advance: "advance j (advance k g) = advance (k + j) g"
  by (simp add: advance_def ac_simps)

lemma advance_0: "advance 0 g = g"
  by (simp add: advance_def)

lemma advance_gen_const: "advance k (gen_const u) = gen_const u"
  by (simp add: advance_def gen_const_def)

lemma advance_2_gen_alt: "advance 2 gen_alt = gen_alt"
  by (simp add: advance_def gen_alt_def)

lemma length_accumulate_from: "length (accumulate_from t ws) = length ws"
  by (induction ws arbitrary: t) auto

lemma length_accumulate: "length (accumulate ws) = length ws"
  by (cases ws) (simp_all add: accumulate_def length_accumulate_from)

lemma last_accumulate_from:
  "last (t # accumulate_from t ws) = t + sum_list ws"
  by (induction ws arbitrary: t) (auto simp: algebra_simps)

lemma last_accumulate: "ws \<noteq> [] \<Longrightarrow> last (accumulate ws) = sum_list ws"
  using last_accumulate_from by (cases ws) (simp_all add: accumulate_def del: last.simps)

lemma bisect_bounds: "lo \<le> hi \<Longrightarrow> lo \<le> bisect a x lo hi \<and> bisect a x lo hi \<le> hi"
proof (induction a x lo hi rule: bisect.induct)
  case (1 a x lo hi)
  show ?case
  proof (cases "lo < hi")
    case False
    with "1.prems" show ?thesis by (simp add: bisect.simps)
  next
    case True
    let ?mid = "(lo + hi) div 2"
    have m: "lo \<le> ?mid" "?mid < hi" using True by auto
    show ?thesis
    proof (cases "x < a ! ?mid")
      case left: True
      have "lo \<le> bisect a x lo ?mid \<and> bisect a x lo ?mid \<le> ?mid"
        using "1.IH"(1)[OF True refl left] m by simp
      then show ?thesis using True left m by (subst (1 2) bisect.simps) (simp add: Let_def)
    next
      case right: False
      have "?mid + 1 \<le> bisect a x (?mid + 1) hi \<and> bisect a x (?mid + 1) hi \<le> hi"
        using "1.IH"(2)[OF True refl right] m by simp
      then show ?thesis using True right m by (subst (1 2) bisect.simps) (simp add: Let_def)
    qed
  qed
qed

lemma choices_ok:
  assumes "length ws = length pop" "pop \<noteq> []" "0 < sum_list ws"
  shows "\<exists>d. choices g pop ws = Inr (d, advance 1 g) \<and> d \<in> set pop"
proof -
  have ws: "ws \<noteq> []" using assms by auto
  let ?i = "bisect (accumulate ws) (g 0 * sum_list ws) 0 (length pop - 1)"
  have "?i \<le> length pop - 1" using bisect_bounds[of 0 "length pop - 1"] by simp
  then have i: "?i < length pop" using assms(2) by (cases pop) auto
  have "choices g pop ws = Inr (pop ! ?i, advance 1 g)"
  proof -
    have ne: "accumulate ws \<noteq> []"
      using ws length_accumulate[of ws] by (metis length_0_conv)
    have tot: "last (accumulate ws) = sum_list ws"
      using ws by (rule last_accumulate)
    show ?thesis
      using assms(1,3)
      by (simp add: choices_def Let_def length_accumulate ne tot rng_random_def advance_Suc)
  qed
  with i show ?thesis by simp
qed

lemma choices_Inr_gen: "choices g pop ws = Inr (d, g') \<Longrightarrow> g' = advance 1 g"
  by (auto simp: choices_def Let_def rng_random_def advance_Suc split: if_splits)

lemma accumulate_from_nth:
  "j < length ws \<Longrightarrow> accumulate_from t ws ! j = t + sum_list (take (Suc j) ws)"
proof (induction ws arbitrary: t j)
  case Nil
  then show ?case by simp
next
  case (Cons w ws)
  show ?case
  proof (cases j)
    case 0
    then show ?thesis by simp
  next
    case (Suc j')
    with Cons.prems have "j' < length ws" by simp
    from Cons.IH[OF this, of "t + w"] Suc show ?thesis by (simp add: algebra_simps)
  qed
qed

lemma accumulate_nth:
  "j < length ws \<Longrightarrow> accumulate ws ! j = sum_list (take (Suc j) ws)"
proof (cases ws)
  case Nil
  then show "j < length ws \<Longrightarrow> ?thesis" by simp
next
  case (Cons w ws')
  assume "j < length ws"
  with Cons show ?thesis
    by (cases j) (simp_all add: accumulate_def accumulate_from_nth)
qed

lemma bisect_finds:
  assumes "lo \<le> i" "i \<le> hi"
    and "\<forall>j. lo \<le> j \<and> j < i \<longrightarrow> \<not> x < a ! j"
    and "\<forall>j. i \<le> j \<and> j < hi \<longrightarrow> x < a ! j"
  shows "bisect a x lo hi = i"
  using assms
proof (induction a x lo hi rule: bisect.induct)
  case (1 a x lo hi)
  show ?case
  proof (cases "lo < hi")
    case False
    with "1.prems" show ?thesis by (simp add: bisect.simps)
  next
    case True
    let ?mid = "(lo + hi) div 2"
    have m: "lo \<le> ?mid" "?mid < hi" using True by auto
    show ?thesis
    proof (cases "x < a ! ?mid")
      case left: True
      have im: "i \<le> ?mid"
      proof (rule ccontr)
        assume "\<not> i \<le> ?mid"
        with m "1.prems"(3) have "\<not> x < a ! ?mid" by auto
        with left show False by simp
      qed
      have "bisect a x lo ?mid = i"
        using "1.prems" m by (intro "1.IH"(1)[OF True refl left] im) auto
      then show ?thesis using True left by (subst bisect.simps) (simp add: Let_def)
    next
      case right: False
      have mi: "?mid + 1 \<le> i"
      proof (rule ccontr)
        assume "\<not> ?mid + 1 \<le> i"
        with m "1.prems"(4) have "x < a ! ?mid" by auto
        with right show False by simp
      qed
      have "bisect a x (?mid + 1) hi = i"
        using "1.prems" m by (intro "1.IH"(2)[OF True refl right] mi) auto
      then show ?thesis using True right by (subst bisect.simps) (simp add: Let_def)
    qed
  qed
qed

lemma sum_list_take_mono:
  assumes "\<forall>w \<in> set ws. (0::real) \<le> w" "j \<le> k"
  shows "sum_list (take j ws) \<le> sum_list (take k ws)"
proof -
  have "take k ws = take j ws @ take (k - j) (drop j ws)"
    using assms(2) by (metis le_add_diff_inverse take_add)
  moreover have "0 \<le> sum_list (take (k - j) (drop j ws))"
    using assms(1) by (intro sum_list_nonneg) (auto dest: in_set_takeD in_set_dropD)
  ultimately show ?thesis by simp
qed

lemma choices_at_prefix_sum:
  assumes nonneg: "\<forall>w \<in> set ws. 0 \<le> w" and len: "length ws = length pop"
    and tot: "sum_list ws = 1" and i: "i < length pop" and pos: "0 < ws ! i"
    and g: "g 0 = sum_list (take i ws)"
  shows "choices g pop ws = Inr (pop ! i, advance 1 g)"
proof -
  have ws: "ws \<noteq> []" using len i by auto
  have ne: "accumulate ws \<noteq> []"
    using ws length_accumulate[of ws] by (metis length_0_conv)
  have last: "last (accumulate ws) = 1"
    using last_accumulate[OF ws] tot by simp
  have b: "bisect (accumulate ws) (g 0) 0 (length pop - 1) = i"
  proof (rule bisect_finds)
    show "0 \<le> i" by simp
    show "i \<le> length pop - 1" using i by simp
    show "\<forall>j. 0 \<le> j \<and> j < i \<longrightarrow> \<not> g 0 < accumulate ws ! j"
    proof (intro allI impI)
      fix j assume j: "0 \<le> j \<and> j < i"
      then have "accumulate ws ! j = sum_list (take (Suc j) ws)"
        using i len by (intro accumulate_nth) simp
      moreover have "sum_list (take (Suc j) ws) \<le> sum_list (take i ws)"
        using j by (intro sum_list_take_mono[OF nonneg]) simp
      ultimately show "\<not> g 0 < accumulate ws ! j" using g by simp
    qed
    show "\<forall>j. i \<le> j \<and> j < length pop - 1 \<longrightarrow> g 0 < accumulate ws ! j"
    proof (intro allI impI)
      fix j assume j: "i \<le> j \<and> j < length pop - 1"
      then have "accumulate ws ! j = sum_list (take (Suc j) ws)"
        using len by (intro accumulate_nth) auto
      moreover have "sum_list (take (Suc i) ws) \<le> sum_list (take (Suc j) ws)"
        using j by (intro sum_list_take_mono[OF nonneg]) simp
      moreover have "sum_list (take (Suc i) ws) = sum_list (take i ws) + ws ! i"
        using i len by (simp add: take_Suc_conv_app_nth)
      ultimately show "g 0 < accumulate ws ! j" using g pos by simp
    qed
  qed
  show ?thesis
    using len b
    by (simp add: choices_def Let_def length_accumulate ne last rng_random_def advance_Suc)
qed

lemma draws_of_0: "draws_of outcomes probs g 0 = []"
  by (simp add: draws_of_def)

lemma draws_of_Suc_front:
  "draws_of outcomes probs g (Suc k) =
     (case choices g outcomes probs of Inl e \<Rightarrow> [] | Inr (d, g') \<Rightarrow> [d])
     @ draws_of outcomes probs (advance 1 g) k"
proof -
  have "[0..<Suc k] = 0 # map Suc [0..<k]"
    by (simp add: upt_conv_Cons map_Suc_upt del: upt_Suc)
  then show ?thesis
    by (simp add: draws_of_def advance_advance advance_0 comp_def del: upt_Suc)
qed

lemma draws_of_Suc_back:
  "draws_of outcomes probs g (Suc k) =
     draws_of outcomes probs g k
     @ (case choices (advance k g) outcomes probs of Inl e \<Rightarrow> [] | Inr (d, g') \<Rightarrow> [d])"
  by (simp add: draws_of_def)

lemma set_draws_of_mono:
  "j \<le> k \<Longrightarrow> set (draws_of outcomes probs g j) \<subseteq> set (draws_of outcomes probs g k)"
  by (induction k) (auto simp: draws_of_0 draws_of_Suc_back le_Suc_eq)

lemma length_draws_of: "length (draws_of outcomes probs g k) \<le> k"
  by (induction k) (auto simp: draws_of_0 draws_of_Suc_back split: sum.splits)

lemma set_draws_of_subset:
  assumes "length probs = length outcomes" "outcomes \<noteq> []" "0 < sum_list probs"
  shows "set (draws_of outcomes probs g k) \<subseteq> set outcomes"
proof (induction k)
  case 0 show ?case by (simp add: draws_of_0)
next
  case (Suc k)
  obtain d where "choices (advance k g) outcomes probs = Inr (d, advance 1 (advance k g))"
    "d \<in> set outcomes"
    using choices_ok[OF assms] by blast
  with Suc show ?case by (simp add: draws_of_Suc_back)
qed

section \<open>Lemmas: the trial loop\<close>

lemma trial_step_ok:
  assumes "length probs = length outcomes" "outcomes \<noteq> []" "0 < sum_list probs"
  shows "\<exists>d \<in> set outcomes.
           choices (gen st) outcomes probs = Inr (d, advance 1 (gen st)) \<and>
           trial_step outcomes probs st =
             Inr \<lparr>collected = (if d \<noteq> ''OTHER'' then insert d (collected st) else collected st),
                  packs_opened = packs_opened st + 1,
                  gen = advance 1 (gen st)\<rparr>"
proof -
  obtain d where d: "choices (gen st) outcomes probs = Inr (d, advance 1 (gen st))" "d \<in> set outcomes"
    using choices_ok[OF assms] by blast
  then show ?thesis by (auto simp: trial_step_def)
qed

lemma trial_step_Inr:
  assumes "trial_step outcomes probs st = Inr st'"
  shows "packs_opened st' = packs_opened st + 1 \<and> gen st' = advance 1 (gen st) \<and>
         (\<exists>d. choices (gen st) outcomes probs = Inr (d, gen st') \<and>
              collected st' = (if d \<noteq> ''OTHER'' then insert d (collected st) else collected st))"
proof -
  from assms obtain d g' where c: "choices (gen st) outcomes probs = Inr (d, g')"
    by (auto simp: trial_step_def split: sum.splits)
  with assms choices_Inr_gen[OF c] show ?thesis
    by (auto simp: trial_step_def)
qed

lemma trial_step_other:
  assumes "choices (gen st) outcomes probs = Inr (''OTHER'', g')"
  shows "trial_step outcomes probs st =
           Inr \<lparr>collected = collected st, packs_opened = packs_opened st + 1, gen = g'\<rparr>"
  using assms by (simp add: trial_step_def)

lemma trial_step_keeps_other_out:
  assumes "trial_step outcomes probs st = Inr st'" "''OTHER'' \<notin> collected st"
  shows "''OTHER'' \<notin> collected st'"
  using trial_step_Inr[OF assms(1)] assms(2) by (auto split: if_splits)

lemma run_steps_Inr:
  "run_steps outcomes probs k st = Inr st' \<Longrightarrow>
     packs_opened st' = packs_opened st + k \<and> gen st' = advance k (gen st)"
proof (induction k arbitrary: st)
  case 0
  then show ?case by (simp add: advance_0)
next
  case (Suc k)
  from Suc.prems obtain s1 where s1: "trial_step outcomes probs st = Inr s1"
    and r: "run_steps outcomes probs k s1 = Inr st'"
    by (auto split: sum.splits)
  from Suc.IH[OF r] trial_step_Inr[OF s1] show ?case
    by (simp add: advance_advance)
qed

lemma run_steps_ok:
  assumes "length probs = length outcomes" "outcomes \<noteq> []" "0 < sum_list probs"
  shows "run_steps outcomes probs k st =
           Inr \<lparr>collected = collected st \<union> (set (draws_of outcomes probs (gen st) k) - {''OTHER''}),
                packs_opened = packs_opened st + k,
                gen = advance k (gen st)\<rparr>"
proof (induction k arbitrary: st)
  case 0
  show ?case by (simp add: draws_of_0 advance_0)
next
  case (Suc k)
  obtain d where d: "choices (gen st) outcomes probs = Inr (d, advance 1 (gen st))"
    and s: "trial_step outcomes probs st =
             Inr \<lparr>collected = (if d \<noteq> ''OTHER'' then insert d (collected st) else collected st),
                  packs_opened = packs_opened st + 1,
                  gen = advance 1 (gen st)\<rparr>"
    using trial_step_ok[OF assms, of st] by blast
  show ?case
    by (auto simp: s Suc.IH draws_of_Suc_front d advance_advance)
qed

lemma trial_loop_stop:
  "collected st = t \<Longrightarrow> trial_loop outcomes probs t st = Some (Inr (packs_opened st, gen st))"
  by (subst trial_loop.simps) simp

lemma trial_loop_continue:
  "collected st \<noteq> t \<Longrightarrow> trial_step outcomes probs st = Inr st' \<Longrightarrow>
   trial_loop outcomes probs t st = trial_loop outcomes probs t st'"
  by (subst trial_loop.simps) simp

lemma first_hit_0: "collected st = t \<Longrightarrow> first_hit outcomes probs t st 0 st"
  by (simp add: first_hit_def)

lemma first_hit_Suc:
  assumes "collected st \<noteq> t" "trial_step outcomes probs st = Inr s1"
    "first_hit outcomes probs t s1 k st'"
  shows "first_hit outcomes probs t st (Suc k) st'"
  unfolding first_hit_def
proof (intro conjI allI impI)
  show "run_steps outcomes probs (Suc k) st = Inr st'"
    using assms by (simp add: first_hit_def)
  show "collected st' = t" using assms by (simp add: first_hit_def)
next
  fix j sj assume j: "j < Suc k" "run_steps outcomes probs j st = Inr sj"
  show "collected sj \<noteq> t"
  proof (cases j)
    case 0 with j assms(1) show ?thesis by simp
  next
    case (Suc j')
    with j assms(2) have "j' < k" "run_steps outcomes probs j' s1 = Inr sj" by auto
    with assms(3) show ?thesis unfolding first_hit_def by blast
  qed
qed

lemma first_hit_Suc_dest:
  assumes "first_hit outcomes probs t st (Suc k) st'"
  shows "collected st \<noteq> t \<and>
         (\<exists>s1. trial_step outcomes probs st = Inr s1 \<and> first_hit outcomes probs t s1 k st')"
proof -
  from assms have r: "run_steps outcomes probs (Suc k) st = Inr st'" and c: "collected st' = t"
    and a: "\<forall>j<Suc k. \<forall>sj. run_steps outcomes probs j st = Inr sj \<longrightarrow> collected sj \<noteq> t"
    by (auto simp: first_hit_def)
  from a have ne: "collected st \<noteq> t" by auto
  from r obtain s1 where s1: "trial_step outcomes probs st = Inr s1"
    and r1: "run_steps outcomes probs k s1 = Inr st'"
    by (auto split: sum.splits)
  have "\<forall>j<k. \<forall>sj. run_steps outcomes probs j s1 = Inr sj \<longrightarrow> collected sj \<noteq> t"
  proof (intro allI impI)
    fix j sj assume "j < k" "run_steps outcomes probs j s1 = Inr sj"
    then have "Suc j < Suc k" "run_steps outcomes probs (Suc j) st = Inr sj"
      using s1 by auto
    with a show "collected sj \<noteq> t" by blast
  qed
  with r1 c have "first_hit outcomes probs t s1 k st'" by (simp add: first_hit_def)
  with ne s1 show ?thesis by blast
qed

lemma trial_loop_returns:
  assumes "first_hit outcomes probs t st k st'"
  shows "trial_loop outcomes probs t st = Some (Inr (packs_opened st', gen st'))"
  using assms
proof (induction k arbitrary: st)
  case 0
  then show ?case by (simp add: first_hit_def trial_loop_stop)
next
  case (Suc k)
  from first_hit_Suc_dest[OF Suc.prems] obtain s1 where ne: "collected st \<noteq> t"
    and s1: "trial_step outcomes probs st = Inr s1" and f: "first_hit outcomes probs t s1 k st'"
    by blast
  from Suc.IH[OF f] show ?case
    using trial_loop_continue[OF ne s1] by simp
qed

lemma trial_loop_Some:
  assumes "trial_loop outcomes probs t st = Some y"
  shows "(\<exists>e k. run_steps outcomes probs k st = Inl e \<and> y = Inl e) \<or>
         (\<exists>k st'. first_hit outcomes probs t st k st' \<and> y = Inr (packs_opened st', gen st'))"
proof (rule trial_loop.raw_induct[where P = "\<lambda>outcomes probs t st y.
         (\<exists>e k. run_steps outcomes probs k st = Inl e \<and> y = Inl e) \<or>
         (\<exists>k st'. first_hit outcomes probs t st k st' \<and> y = Inr (packs_opened st', gen st'))",
         OF _ assms])
  fix loop :: "string list \<Rightarrow> real list \<Rightarrow> string set \<Rightarrow> trial_state \<Rightarrow> (error + nat \<times> rng) option"
  fix outcomes probs t st y
  assume IH: "\<And>outcomes probs t st y. loop outcomes probs t st = Some y \<Longrightarrow>
      (\<exists>e k. run_steps outcomes probs k st = Inl e \<and> y = Inl e) \<or>
      (\<exists>k st'. first_hit outcomes probs t st k st' \<and> y = Inr (packs_opened st', gen st'))"
  assume body: "(if collected st \<noteq> t
        then case trial_step outcomes probs st of Inl e \<Rightarrow> Some (Inl e)
             | Inr st' \<Rightarrow> loop outcomes probs t st'
        else Some (Inr (packs_opened st, gen st))) = Some y"
  show "(\<exists>e k. run_steps outcomes probs k st = Inl e \<and> y = Inl e) \<or>
      (\<exists>k st'. first_hit outcomes probs t st k st' \<and> y = Inr (packs_opened st', gen st'))"
  proof (cases "collected st = t")
    case True
    with body have "y = Inr (packs_opened st, gen st)" by simp
    with first_hit_0[OF True] show ?thesis by blast
  next
    case False
    show ?thesis
    proof (cases "trial_step outcomes probs st")
      case (Inl e)
      then have "run_steps outcomes probs (Suc 0) st = Inl e" by simp
      moreover from Inl body False have "y = Inl e" by auto
      ultimately show ?thesis by blast
    next
      case (Inr s1)
      with body False have "loop outcomes probs t s1 = Some y" by simp
      from IH[OF this] show ?thesis
      proof (elim disjE exE conjE)
        fix e k assume "run_steps outcomes probs k s1 = Inl e" "y = Inl e"
        then have "run_steps outcomes probs (Suc k) st = Inl e \<and> y = Inl e"
          using Inr by simp
        then show ?thesis by blast
      next
        fix k st' assume "first_hit outcomes probs t s1 k st'" "y = Inr (packs_opened st', gen st')"
        with first_hit_Suc[OF False Inr] show ?thesis by blast
      qed
    qed
  qed
qed

lemma trial_loop_Inr_iff:
  "trial_loop outcomes probs t st = Some (Inr (n, g)) \<longleftrightarrow>
     (\<exists>k st'. first_hit outcomes probs t st k st' \<and>
              n = packs_opened st + k \<and> g = advance k (gen st))"
proof
  assume "trial_loop outcomes probs t st = Some (Inr (n, g))"
  from trial_loop_Some[OF this] obtain k st' where
    f: "first_hit outcomes probs t st k st'" and y: "n = packs_opened st'" "g = gen st'"
    by auto
  from f have "run_steps outcomes probs k st = Inr st'" by (simp add: first_hit_def)
  from run_steps_Inr[OF this] f y show
    "\<exists>k st'. first_hit outcomes probs t st k st' \<and> n = packs_opened st + k \<and> g = advance k (gen st)"
    by auto
next
  assume "\<exists>k st'. first_hit outcomes probs t st k st' \<and>
              n = packs_opened st + k \<and> g = advance k (gen st)"
  then obtain k st' where f: "first_hit outcomes probs t st k st'"
    and y: "n = packs_opened st + k" "g = advance k (gen st)" by blast
  from f have "run_steps outcomes probs k st = Inr st'" by (simp add: first_hit_def)
  from run_steps_Inr[OF this] trial_loop_returns[OF f] y
  show "trial_loop outcomes probs t st = Some (Inr (n, g))" by simp
qed

lemma first_hit_valid:
  assumes "length probs = length outcomes" "outcomes \<noteq> []" "0 < sum_list probs"
  shows "first_hit outcomes probs t st k st' \<longleftrightarrow>
           seen outcomes probs st k = t \<and> (\<forall>j<k. seen outcomes probs st j \<noteq> t) \<and>
           st' = \<lparr>collected = t, packs_opened = packs_opened st + k, gen = advance k (gen st)\<rparr>"
  unfolding first_hit_def run_steps_ok[OF assms] seen_def by auto

lemma trial_loop_valid_returns:
  assumes "length probs = length outcomes" "outcomes \<noteq> []" "0 < sum_list probs"
    and "seen outcomes probs st k = t" "\<forall>j<k. seen outcomes probs st j \<noteq> t"
  shows "trial_loop outcomes probs t st = Some (Inr (packs_opened st + k, advance k (gen st)))"
proof -
  have "first_hit outcomes probs t st k
          \<lparr>collected = t, packs_opened = packs_opened st + k, gen = advance k (gen st)\<rparr>"
    using assms(4,5) by (simp add: first_hit_valid[OF assms(1-3)])
  from trial_loop_returns[OF this] show ?thesis by simp
qed

lemma trial_loop_valid_diverges:
  assumes "length probs = length outcomes" "outcomes \<noteq> []" "0 < sum_list probs"
    and "\<forall>k. seen outcomes probs st k \<noteq> t"
  shows "trial_loop outcomes probs t st = None"
proof (rule ccontr)
  assume "trial_loop outcomes probs t st \<noteq> None"
  then obtain y where y: "trial_loop outcomes probs t st = Some y" by auto
  from trial_loop_Some[OF y] show False
  proof (elim disjE exE conjE)
    fix e k assume "run_steps outcomes probs k st = Inl e"
    then show False by (simp add: run_steps_ok[OF assms(1-3)])
  next
    fix k st' assume "first_hit outcomes probs t st k st'"
    then have "seen outcomes probs st k = t" by (simp add: first_hit_valid[OF assms(1-3)])
    with assms(4) show False by blast
  qed
qed

lemma trial_loop_valid_Some:
  assumes "length probs = length outcomes" "outcomes \<noteq> []" "0 < sum_list probs"
    and "trial_loop outcomes probs t st = Some y"
  shows "\<exists>k. seen outcomes probs st k = t \<and> (\<forall>j<k. seen outcomes probs st j \<noteq> t) \<and>
             y = Inr (packs_opened st + k, advance k (gen st))"
  using trial_loop_Some[OF assms(4)]
proof (elim disjE exE conjE)
  fix e k assume "run_steps outcomes probs k st = Inl e"
  then show ?thesis by (simp add: run_steps_ok[OF assms(1-3)])
next
  fix k st' assume "first_hit outcomes probs t st k st'" "y = Inr (packs_opened st', gen st')"
  then show ?thesis by (auto simp: first_hit_valid[OF assms(1-3)])
qed

lemma least_hit:
  assumes "P (k::nat)"
  shows "\<exists>n\<le>k. P n \<and> (\<forall>j<n. \<not> P j)"
proof -
  have "P (LEAST n. P n)" using assms by (rule LeastI)
  moreover have "(LEAST n. P n) \<le> k" using assms by (rule Least_le)
  moreover have "\<forall>j<LEAST n. P n. \<not> P j" using not_less_Least by blast
  ultimately show ?thesis by blast
qed

section \<open>Lemmas: one trial\<close>

lemma seen_initial:
  "seen outcomes probs \<lparr>collected = {}, packs_opened = 0, gen = g\<rparr> k =
     set (draws_of outcomes probs g k) - {''OTHER''}"
  by (simp add: seen_def)

lemma draws_valid:
  assumes "\<not> (\<exists>pl \<in> set players. p pl < 0)" "sum_list (map p players) \<le> 1"
  shows "draws players g k =
           draws_of (map name players @ [''OTHER''])
                    (map p players @ [1 - sum_list (map p players)]) g k"
  by (simp add: draws_def build_distribution_valid[OF assms])

lemma draws_subset:
  "set (draws players g k) \<subseteq> insert ''OTHER'' (set (map name players))"
proof (cases "build_distribution players")
  case (Inl e)
  then show ?thesis by (simp add: draws_def)
next
  case (Inr d)
  obtain outcomes probs where d: "d = (outcomes, probs)" by (cases d)
  note b = Inr[unfolded d]
  from set_draws_of_subset[OF build_distribution_wf(1-3)[OF b], of g k]
    build_distribution_wf(4)[OF b]
  show ?thesis by (simp add: draws_def b)
qed

lemma length_draws: "length (draws players g k) \<le> k"
  by (auto simp: draws_def length_draws_of split: sum.splits)

lemma hit_iff_cover:
  assumes "''OTHER'' \<notin> set (map name players)"
  shows "set (draws players g k) - {''OTHER''} = set (map name players)
           \<longleftrightarrow> set (map name players) \<subseteq> set (draws players g k)"
  using draws_subset[of players g k] assms by (simp only: set_map) blast

lemma other_never_hit:
  assumes "''OTHER'' \<in> set (map name players)"
  shows "set (draws players g k) - {''OTHER''} \<noteq> set (map name players)"
  using assms by auto

lemma run_single_trial_raises:
  "build_distribution players = Inl e \<Longrightarrow> run_single_trial lib players rng b = Some (Inl e)"
  by (simp add: run_single_trial_def)

lemma run_single_trial_returns:
  assumes "\<not> (\<exists>pl \<in> set players. p pl < 0)" "sum_list (map p players) \<le> 1"
    and "g = (case rng of None \<Rightarrow> unseeded lib | Some g' \<Rightarrow> g')"
    and "set (draws players g n) - {''OTHER''} = set (map name players)"
    and "\<forall>j<n. set (draws players g j) - {''OTHER''} \<noteq> set (map name players)"
  shows "run_single_trial lib players rng b = Some (Inr (n, advance n g, b + 1))"
proof -
  let ?o = "map name players @ [''OTHER'']"
  let ?p = "map p players @ [1 - sum_list (map p players)]"
  let ?st = "\<lparr>collected = {}, packs_opened = 0, gen = g\<rparr>"
  have b: "build_distribution players = Inr (?o, ?p)"
    by (rule build_distribution_valid[OF assms(1,2)])
  note wf = build_distribution_wf(1-3)[OF b]
  have "trial_loop ?o ?p (set (map name players)) ?st
          = Some (Inr (packs_opened ?st + n, advance n (gen ?st)))"
    using assms(4,5) unfolding draws_valid[OF assms(1,2)]
    by (intro trial_loop_valid_returns[OF wf]) (simp_all only: seen_initial)
  then show ?thesis
    by (simp add: run_single_trial_def b assms(3))
qed

lemma run_single_trial_diverges:
  assumes "\<not> (\<exists>pl \<in> set players. p pl < 0)" "sum_list (map p players) \<le> 1"
    and "g = (case rng of None \<Rightarrow> unseeded lib | Some g' \<Rightarrow> g')"
    and "\<forall>k. set (draws players g k) - {''OTHER''} \<noteq> set (map name players)"
  shows "run_single_trial lib players rng b = None"
proof -
  let ?o = "map name players @ [''OTHER'']"
  let ?p = "map p players @ [1 - sum_list (map p players)]"
  let ?st = "\<lparr>collected = {}, packs_opened = 0, gen = g\<rparr>"
  have b: "build_distribution players = Inr (?o, ?p)"
    by (rule build_distribution_valid[OF assms(1,2)])
  note wf = build_distribution_wf(1-3)[OF b]
  have "trial_loop ?o ?p (set (map name players)) ?st = None"
    using assms(4) unfolding draws_valid[OF assms(1,2)]
    by (intro trial_loop_valid_diverges[OF wf]) (simp add: seen_initial)
  then show ?thesis
    by (simp add: run_single_trial_def b assms(3))
qed

lemma run_single_trial_Some_Inr:
  assumes "run_single_trial lib players rng b = Some (Inr (n, g', b'))"
    and "g = (case rng of None \<Rightarrow> unseeded lib | Some g' \<Rightarrow> g')"
  shows "\<not> (\<exists>pl \<in> set players. p pl < 0) \<and> sum_list (map p players) \<le> 1 \<and>
         set (draws players g n) - {''OTHER''} = set (map name players) \<and>
         (\<forall>j<n. set (draws players g j) - {''OTHER''} \<noteq> set (map name players)) \<and>
         g' = advance n g \<and> b' = b + 1"
proof -
  from assms(1) obtain outcomes probs where b: "build_distribution players = Inr (outcomes, probs)"
    by (auto simp: run_single_trial_def split: sum.splits)
  note v = build_distribution_Inr[OF b]
  note wf = build_distribution_wf(1-3)[OF b]
  let ?st = "\<lparr>collected = {}, packs_opened = 0, gen = g\<rparr>"
  from assms have l: "trial_loop outcomes probs (set (map name players)) ?st = Some (Inr (n, g'))"
    and b': "b' = b + 1"
    by (auto simp: run_single_trial_def b Let_def split: option.splits sum.splits)
  from trial_loop_valid_Some[OF wf l] obtain k where
    k: "seen outcomes probs ?st k = set (map name players)"
       "\<forall>j<k. seen outcomes probs ?st j \<noteq> set (map name players)"
       "n = k" "g' = advance k g"
    by auto
  have d: "\<And>j. draws players g j = draws_of outcomes probs g j"
    by (simp add: draws_def b)
  from k b' v show ?thesis by (simp add: d seen_initial)
qed

lemma run_single_trial_other:
  assumes "''OTHER'' \<in> set (map name players)"
  shows "run_single_trial lib players rng b =
           (case build_distribution players of Inl e \<Rightarrow> Some (Inl e) | Inr d \<Rightarrow> None)"
proof (cases "build_distribution players")
  case (Inl e)
  then show ?thesis by (simp add: run_single_trial_raises)
next
  case (Inr d)
  obtain outcomes probs where d: "d = (outcomes, probs)" by (cases d)
  note v = build_distribution_Inr[OF Inr[unfolded d]]
  have "run_single_trial lib players rng b = None"
    by (rule run_single_trial_diverges[OF _ _ refl]) (use v other_never_hit[OF assms] in auto)
  with Inr show ?thesis by simp
qed

lemma run_single_trial_covered:
  assumes "\<forall>pl \<in> set players. 0 < p pl" "sum_list (map p players) \<le> 1"
    and "distinct (map name players)" "''OTHER'' \<notin> set (map name players)"
    and "g = (case rng of None \<Rightarrow> unseeded lib | Some r \<Rightarrow> r)"
    and "set (map name players) \<subseteq> set (draws players g N)"
  shows "\<exists>n. run_single_trial lib players rng b = Some (Inr (n, advance n g, b + 1)) \<and>
             length players \<le> n \<and> n \<le> N \<and>
             set (map name players) \<subseteq> set (draws players g n) \<and>
             (\<forall>k<n. \<not> set (map name players) \<subseteq> set (draws players g k))"
proof -
  let ?t = "set (map name players)"
  have nn: "\<not> (\<exists>pl \<in> set players. p pl < 0)" using assms(1) by force
  from least_hit[of "\<lambda>k. ?t \<subseteq> set (draws players g k)" N, OF assms(6)]
  obtain n where n: "n \<le> N" "?t \<subseteq> set (draws players g n)"
    "\<forall>k<n. \<not> ?t \<subseteq> set (draws players g k)" by blast
  have r: "run_single_trial lib players rng b = Some (Inr (n, advance n g, b + 1))"
    using n(2,3) by (intro run_single_trial_returns[OF nn assms(2,5)])
      (simp_all only: hit_iff_cover[OF assms(4)])
  have "length players = card ?t" using distinct_card[OF assms(3)] by simp
  also have "\<dots> \<le> card (set (draws players g n))" using n(2) by (intro card_mono) auto
  also have "\<dots> \<le> length (draws players g n)" by (rule card_length)
  also have "\<dots> \<le> n" by (rule length_draws)
  finally have "length players \<le> n" .
  with r n show ?thesis by blast
qed

text \<open>
  The bound on the result is attained. When every probability is strictly positive,
  \<open>cover_gen players\<close> has its values in \<open>[0, 1)\<close>, the draws made from it are the
  players' names in the order of the list, and the trial on it returns the number of
  players.
\<close>

lemma cover_gen_range:
  assumes "\<forall>pl \<in> set players. 0 < p pl" "sum_list (map p players) \<le> 1"
  shows "0 \<le> cover_gen players i \<and> cover_gen players i < 1"
proof (cases "i < length players")
  case False
  then show ?thesis by (simp add: cover_gen_def)
next
  case True
  let ?ws = "map p players"
  have nonneg: "\<forall>w \<in> set ?ws. 0 \<le> w" using assms(1) by auto
  have 0: "0 \<le> sum_list (take i ?ws)"
    using sum_list_take_mono[OF nonneg, of 0 i] by simp
  have "sum_list (take (Suc i) ?ws) = sum_list (take i ?ws) + ?ws ! i"
    using True by (simp add: take_Suc_conv_app_nth)
  moreover have "0 < ?ws ! i" using True assms(1) by simp
  moreover have "sum_list (take (Suc i) ?ws) \<le> sum_list (take (length ?ws) ?ws)"
    using True by (intro sum_list_take_mono[OF nonneg]) simp
  ultimately have "sum_list (take i ?ws) < 1" using assms(2) by simp
  with 0 True show ?thesis by (simp add: cover_gen_def)
qed

lemma draws_cover_gen:
  assumes "\<forall>pl \<in> set players. 0 < p pl" "sum_list (map p players) \<le> 1"
    and "k \<le> length players"
  shows "draws players (cover_gen players) k = take k (map name players)"
proof -
  let ?o = "map name players @ [''OTHER'']"
  let ?ws = "map p players @ [1 - sum_list (map p players)]"
  let ?g = "cover_gen players"
  have nn: "\<not> (\<exists>pl \<in> set players. p pl < 0)" using assms(1) by force
  have nonneg: "\<forall>w \<in> set ?ws. 0 \<le> w" using assms by auto
  have "draws_of ?o ?ws ?g k = take k (map name players)" using assms(3)
  proof (induction k)
    case 0
    show ?case by (simp add: draws_of_0)
  next
    case (Suc k)
    then have k: "k < length players" by simp
    have g: "advance k ?g 0 = sum_list (take k ?ws)"
      using k by (simp add: advance_def cover_gen_def)
    have "choices (advance k ?g) ?o ?ws = Inr (?o ! k, advance 1 (advance k ?g))"
    proof (rule choices_at_prefix_sum[where ws = ?ws and pop = ?o and i = k])
      show "\<forall>w \<in> set ?ws. 0 \<le> w" by (rule nonneg)
      show "length ?ws = length ?o" by simp
      show "sum_list ?ws = 1" by simp
      show "k < length ?o" using k by simp
      show "0 < ?ws ! k" using k assms(1) by (simp add: nth_append)
      show "advance k ?g 0 = sum_list (take k ?ws)" by (rule g)
    qed
    moreover have "?o ! k = map name players ! k" using k by (simp add: nth_append)
    ultimately show ?case
      using Suc k by (simp add: draws_of_Suc_back take_Suc_conv_app_nth)
  qed
  then show ?thesis by (simp add: draws_valid[OF nn assms(2)])
qed

lemma run_single_trial_cover_gen:
  assumes "\<forall>pl \<in> set players. 0 < p pl" "sum_list (map p players) \<le> 1"
    and "distinct (map name players)" "''OTHER'' \<notin> set (map name players)"
  shows "run_single_trial lib players (Some (cover_gen players)) b =
           Some (Inr (length players, advance (length players) (cover_gen players), b + 1))"
proof -
  let ?g = "cover_gen players"
  have c: "set (map name players) \<subseteq> set (draws players ?g (length players))"
    by (simp add: draws_cover_gen[OF assms(1,2)])
  have g: "?g = (case Some ?g of None \<Rightarrow> unseeded lib | Some r \<Rightarrow> r)" by simp
  from run_single_trial_covered[OF assms g c, of b]
  obtain n where "run_single_trial lib players (Some ?g) b = Some (Inr (n, advance n ?g, b + 1))"
    "length players \<le> n" "n \<le> length players" by blast
  then show ?thesis by simp
qed

lemma run_single_trial_Inr_iff:
  assumes "g0 = (case rng of None \<Rightarrow> unseeded lib | Some r \<Rightarrow> r)"
  shows "run_single_trial lib players rng b = Some (Inr (n, g', b')) \<longleftrightarrow>
           (\<exists>d. build_distribution players = Inr d) \<and>
           set (draws players g0 n) - {''OTHER''} = set (map name players) \<and>
           (\<forall>j<n. set (draws players g0 j) - {''OTHER''} \<noteq> set (map name players)) \<and>
           g' = advance n g0 \<and> b' = b + 1"
proof
  assume r: "run_single_trial lib players rng b = Some (Inr (n, g', b'))"
  from run_single_trial_Some_Inr[OF r assms] build_distribution_cases[of players]
  show "(\<exists>d. build_distribution players = Inr d) \<and>
           set (draws players g0 n) - {''OTHER''} = set (map name players) \<and>
           (\<forall>j<n. set (draws players g0 j) - {''OTHER''} \<noteq> set (map name players)) \<and>
           g' = advance n g0 \<and> b' = b + 1"
    by blast
next
  assume a: "(\<exists>d. build_distribution players = Inr d) \<and>
           set (draws players g0 n) - {''OTHER''} = set (map name players) \<and>
           (\<forall>j<n. set (draws players g0 j) - {''OTHER''} \<noteq> set (map name players)) \<and>
           g' = advance n g0 \<and> b' = b + 1"
  with build_distribution_cases[of players]
  have v: "\<not> (\<exists>pl \<in> set players. p pl < 0)" "sum_list (map p players) \<le> 1" by blast+
  from a run_single_trial_returns[OF v assms, of n b]
  show "run_single_trial lib players rng b = Some (Inr (n, g', b'))" by simp
qed

lemma run_single_trial_None_iff:
  assumes "g0 = (case rng of None \<Rightarrow> unseeded lib | Some r \<Rightarrow> r)"
  shows "run_single_trial lib players rng b = None \<longleftrightarrow>
           (\<exists>d. build_distribution players = Inr d) \<and>
           (\<forall>k. set (draws players g0 k) - {''OTHER''} \<noteq> set (map name players))"
proof
  assume n: "run_single_trial lib players rng b = None"
  have b: "\<exists>d. build_distribution players = Inr d"
  proof (cases "build_distribution players")
    case (Inl e)
    from run_single_trial_raises[OF this, of lib rng b] n show ?thesis by simp
  next
    case (Inr d) then show ?thesis by blast
  qed
  with build_distribution_cases[of players]
  have v: "\<not> (\<exists>pl \<in> set players. p pl < 0)" "sum_list (map p players) \<le> 1" by blast+
  have "set (draws players g0 k) - {''OTHER''} \<noteq> set (map name players)" for k
  proof
    assume "set (draws players g0 k) - {''OTHER''} = set (map name players)"
    from least_hit[of "\<lambda>k. set (draws players g0 k) - {''OTHER''} = set (map name players)" k,
        OF this]
    obtain m where "set (draws players g0 m) - {''OTHER''} = set (map name players)"
      "\<forall>j<m. set (draws players g0 j) - {''OTHER''} \<noteq> set (map name players)" by blast
    from run_single_trial_returns[OF v assms this, of b] n show False by simp
  qed
  with b show "(\<exists>d. build_distribution players = Inr d) \<and>
           (\<forall>k. set (draws players g0 k) - {''OTHER''} \<noteq> set (map name players))" by blast
next
  assume a: "(\<exists>d. build_distribution players = Inr d) \<and>
           (\<forall>k. set (draws players g0 k) - {''OTHER''} \<noteq> set (map name players))"
  with build_distribution_cases[of players]
  have v: "\<not> (\<exists>pl \<in> set players. p pl < 0)" "sum_list (map p players) \<le> 1" by blast+
  from a run_single_trial_diverges[OF v assms]
  show "run_single_trial lib players rng b = None" by blast
qed



section \<open>Lemmas: the batch\<close>

lemma run_single_trial_Some_given:
  "build_distribution players = Inr (outcomes, probs) \<Longrightarrow>
   run_single_trial lib players (Some g) b =
     (case trial_loop outcomes probs (set (map name players))
             \<lparr>collected = {}, packs_opened = 0, gen = g\<rparr> of
        None \<Rightarrow> None
      | Some (Inl e) \<Rightarrow> Some (Inl e)
      | Some (Inr (packs, g')) \<Rightarrow> Some (Inr (packs, g', b + 1)))"
  by (simp add: run_single_trial_def)

lemma trials_shared_eq:
  assumes "build_distribution players = Inr (outcomes, probs)"
  shows "trials lib players k g b =
     (case trials_shared outcomes probs (set (map name players)) k g of
        None \<Rightarrow> None
      | Some (Inl e) \<Rightarrow> Some (Inl e)
      | Some (Inr (rs, g')) \<Rightarrow> Some (Inr (rs, g', b + k)))"
proof (induction k arbitrary: g b)
  case 0
  show ?case by simp
next
  case (Suc k)
  show ?case
    by (simp add: run_single_trial_Some_given[OF assms] Suc.IH
        split: option.splits sum.splits prod.splits)
qed

lemma run_many_trials_eq_build_once:
  "map_option (map_sum id fst) (run_many_trials lib players n seed b) =
   map_option (map_sum id fst) (run_many_trials_build_once lib players n seed b)"
proof (cases "n \<le> 0")
  case True
  then show ?thesis by (simp add: run_many_trials_def run_many_trials_build_once_def)
next
  case False
  then obtain k where k: "nat n = Suc k" by (cases "nat n") auto
  show ?thesis
  proof (cases "build_distribution players")
    case (Inl e)
    with False k show ?thesis
      by (simp add: run_many_trials_def run_many_trials_build_once_def
          run_single_trial_raises[OF Inl])
  next
    case (Inr d)
    obtain outcomes probs where d: "d = (outcomes, probs)" by (cases d)
    note b = Inr[unfolded d]
    from False show ?thesis
      by (simp add: run_many_trials_def run_many_trials_build_once_def b
          trials_shared_eq[OF b] split: option.splits sum.splits prod.splits)
  qed
qed

lemma trials_builds:
  "trials lib players k g b = Some (Inr (rs, g', b')) \<Longrightarrow> b' = b + k \<and> length rs = k"
proof (induction k arbitrary: g b rs)
  case 0
  then show ?case by simp
next
  case (Suc k)
  from Suc.prems obtain r g1 b1 rs1 where
    1: "run_single_trial lib players (Some g) b = Some (Inr (r, g1, b1))"
    and 2: "trials lib players k g1 b1 = Some (Inr (rs1, g', b'))" and 3: "rs = r # rs1"
    by (auto split: option.splits sum.splits prod.splits)
  from run_single_trial_Some_Inr[OF 1] have "b1 = b + 1" by simp
  with Suc.IH[OF 2] 3 show ?case by simp
qed

lemma run_many_trials_builds:
  "run_many_trials lib players n seed b = Some (Inr (rs, b')) \<Longrightarrow>
     b' = b + nat n \<and> length rs = nat n \<and> 0 < n"
  by (auto simp: run_many_trials_def split: if_splits option.splits sum.splits prod.splits
      dest: trials_builds)

lemma run_many_trials_build_once_builds:
  "run_many_trials_build_once lib players n seed b = Some (Inr (rs, b')) \<Longrightarrow> b' = b + 1"
  by (auto simp: run_many_trials_build_once_def
      split: if_splits option.splits sum.splits prod.splits)

lemma trials_indep:
  "map_option (map_sum id (\<lambda>(rs, g', b'). (rs, g'))) (trials lib1 players k g b1) =
   map_option (map_sum id (\<lambda>(rs, g', b'). (rs, g'))) (trials lib2 players k g b2)"
proof (cases "build_distribution players")
  case (Inl e)
  then show ?thesis by (cases k) (simp_all add: run_single_trial_raises)
next
  case (Inr d)
  obtain outcomes probs where d: "d = (outcomes, probs)" by (cases d)
  note b = Inr[unfolded d]
  show ?thesis
    by (simp add: trials_shared_eq[OF b] split: option.splits sum.splits prod.splits)
qed

lemma run_many_trials_results:
  "\<not> n \<le> 0 \<Longrightarrow>
   map_option (map_sum id fst) (run_many_trials lib players n seed b) =
   map_option (map_sum id fst)
     (map_option (map_sum id (\<lambda>(rs, g', b'). (rs, g')))
        (trials lib players (nat n) (seeded lib seed) b))"
  by (simp add: run_many_trials_def split: option.splits sum.splits prod.splits)

lemma run_many_trials_indep:
  assumes "seeded lib1 seed = seeded lib2 seed"
  shows "map_option (map_sum id fst) (run_many_trials lib1 players n seed b1) =
         map_option (map_sum id fst) (run_many_trials lib2 players n seed b2)"
proof (cases "n \<le> 0")
  case True
  then show ?thesis by (simp add: run_many_trials_def)
next
  case False
  show ?thesis
    unfolding run_many_trials_results[OF False] assms
    using trials_indep[of lib1 players "nat n" "seeded lib2 seed" b1 lib2 b2] by simp
qed

lemma trials_sequential:
  assumes "trials lib players k g b = Some (Inr (rs, g', b'))"
  shows "g' = advance (sum_list rs) g \<and>
         (\<forall>i<k. run_single_trial lib players (Some (advance (sum_list (take i rs)) g)) (b + i) =
                   Some (Inr (rs ! i, advance (sum_list (take (Suc i) rs)) g, b + i + 1)))"
  using assms
proof (induction k arbitrary: g b rs)
  case 0
  then show ?case by (simp add: advance_0)
next
  case (Suc k)
  from Suc.prems obtain r g1 b1 rs1 where
    1: "run_single_trial lib players (Some g) b = Some (Inr (r, g1, b1))"
    and 2: "trials lib players k g1 b1 = Some (Inr (rs1, g', b'))" and 3: "rs = r # rs1"
    by (auto split: option.splits sum.splits prod.splits)
  from run_single_trial_Some_Inr[OF 1] have g1: "g1 = advance r g" and b1: "b1 = b + 1" by simp_all
  from Suc.IH[OF 2] have ih: "g' = advance (sum_list rs1) g1"
    "\<And>i. i < k \<Longrightarrow> run_single_trial lib players (Some (advance (sum_list (take i rs1)) g1)) (b1 + i) =
                   Some (Inr (rs1 ! i, advance (sum_list (take (Suc i) rs1)) g1, b1 + i + 1))"
    by auto
  have fin: "g' = advance (sum_list rs) g"
    using ih(1) by (simp add: 3 g1 advance_advance)
  have "run_single_trial lib players (Some (advance (sum_list (take i rs)) g)) (b + i) =
          Some (Inr (rs ! i, advance (sum_list (take (Suc i) rs)) g, b + i + 1))" if "i < Suc k" for i
  proof (cases i)
    case 0
    with 1 show ?thesis by (simp add: 3 advance_0 g1 b1)
  next
    case (Suc j)
    with that have "j < k" by simp
    from ih(2)[OF this] show ?thesis
      by (simp add: Suc 3 g1 b1 advance_advance)
  qed
  with fin show ?case by blast
qed

lemma run_many_trials_sequential:
  assumes "run_many_trials lib players n seed b = Some (Inr (rs, b'))"
  shows "length rs = nat n \<and>
         (\<forall>i<length rs.
            run_single_trial lib players
                (Some (advance (sum_list (take i rs)) (seeded lib seed))) (b + i)
              = Some (Inr (rs ! i, advance (sum_list (take (Suc i) rs)) (seeded lib seed),
                          b + i + 1)))"
proof -
  from assms obtain g' where
    t: "trials lib players (nat n) (seeded lib seed) b = Some (Inr (rs, g', b'))"
    by (auto simp: run_many_trials_def split: if_splits option.splits sum.splits prod.splits)
  from trials_builds[OF t] trials_sequential[OF t] show ?thesis by simp
qed

section \<open>Lemmas: the law of the draws\<close>


























lemma interval_length:
  "i < length ws \<Longrightarrow> sum_list (take (Suc i) ws) - sum_list (take i ws) = (ws ! i :: real)"
  by (simp add: take_Suc_conv_app_nth)

section \<open>Lemmas: the examples\<close>

lemma choices_alt_example:
  "choices gen_alt [''A'', ''B'', ''OTHER''] [1/2, 1/2, 0] = Inr (''A'', advance 1 gen_alt)"
  "choices (advance (Suc 0) gen_alt) [''A'', ''B'', ''OTHER''] [1/2, 1/2, 0]
     = Inr (''B'', advance 1 (advance 1 gen_alt))"
  by (simp_all add: choices_def accumulate_def rng_random_def gen_alt_def Let_def
      bisect.simps advance_def)

lemma draws_alt_example:
  "draws [player ''A'' (1/2), player ''B'' (1/2)] gen_alt 2 = [''A'', ''B'']"
proof -
  have b: "build_distribution [player ''A'' (1/2), player ''B'' (1/2)]
             = Inr ([''A'', ''B'', ''OTHER''], [1/2, 1/2, 0])"
    by (simp add: build_distribution_def player_def Let_def)
  have u: "[0..<2] = [0, 1]" by (simp add: upt_conv_Cons)
  show ?thesis
    by (simp add: draws_def b draws_of_def u advance_0 choices_alt_example)
qed

lemma trial_alt_example:
  "run_single_trial lib [player ''A'' (1/2), player ''B'' (1/2)] (Some gen_alt) b
     = Some (Inr (2, gen_alt, b + 1))"
proof -
  let ?ps = "[player ''A'' (1/2), player ''B'' (1/2)]"
  have 1: "\<forall>pl \<in> set ?ps. 0 < p pl" by (simp add: player_def)
  have 2: "sum_list (map p ?ps) \<le> 1" by (simp add: player_def)
  have 3: "distinct (map name ?ps)" by (simp add: player_def)
  have 4: "''OTHER'' \<notin> set (map name ?ps)" by (simp add: player_def)
  have 5: "gen_alt = (case Some gen_alt of None \<Rightarrow> unseeded lib | Some r \<Rightarrow> r)" by simp
  have 6: "set (map name ?ps) \<subseteq> set (draws ?ps gen_alt 2)"
    by (simp add: draws_alt_example) (simp add: player_def)
  from run_single_trial_covered[OF 1 2 3 4 5 6, of b]
  obtain n where n: "run_single_trial lib ?ps (Some gen_alt) b
      = Some (Inr (n, advance n gen_alt, b + 1))" "length ?ps \<le> n" "n \<le> 2"
    by blast
  from n(2,3) have "n = 2" by simp
  with n(1) show ?thesis by (simp add: advance_2_gen_alt)
qed

lemma batch_alt_example:
  "run_many_trials lib_alt [player ''A'' (1/2), player ''B'' (1/2)] 2 42 0
     = Some (Inr ([2, 2], 2))"
proof -
  have s: "seeded lib_alt 42 = gen_alt" by (simp add: lib_alt_def)
  have n: "nat (2::int) = Suc (Suc 0)" by simp
  show ?thesis
    unfolding run_many_trials_def s n by (simp add: trial_alt_example)
qed

lemma build_alt_example:
  "build_distribution [player ''A'' (1/2), player ''B'' (1/2)]
     = Inr ([''A'', ''B'', ''OTHER''], [1/2, 1/2, 0])"
  by (simp add: build_distribution_def player_def Let_def)

lemma draws_of_alt_example:
  "draws_of [''A'', ''B'', ''OTHER''] [1/2, 1/2, 0] gen_alt 0 = []"
  "draws_of [''A'', ''B'', ''OTHER''] [1/2, 1/2, 0] gen_alt (Suc 0) = [''A'']"
  "draws_of [''A'', ''B'', ''OTHER''] [1/2, 1/2, 0] gen_alt (Suc (Suc 0)) = [''A'', ''B'']"
  by (simp_all add: draws_of_0 draws_of_Suc_back advance_0 choices_alt_example)

lemma constant_generator_draws:
  "set (draws [player ''A'' (1/2), player ''B'' (1/4)] (gen_const 0) k) \<subseteq> {''A''}"
proof -
  let ?ps = "[player ''A'' (1/2), player ''B'' (1/4)]"
  have b: "build_distribution ?ps = Inr ([''A'', ''B'', ''OTHER''], [1/2, 1/4, 1/4])"
    by (simp add: build_distribution_def player_def Let_def)
  have c: "choices (gen_const 0) [''A'', ''B'', ''OTHER''] [1/2, 1/4, 1/4]
             = Inr (''A'', advance 1 (gen_const 0))"
    by (simp add: choices_def accumulate_def rng_random_def gen_const_def Let_def
        bisect.simps advance_def)
  show ?thesis
    by (induction k)
       (simp_all add: draws_def b draws_of_0 draws_of_Suc_back advance_gen_const c)
qed

section \<open>The claims\<close>



text \<open>
  Claim C2, as the code has it. \<open>quantile\<close> does not sort its argument (the parameter is
  \<open>sorted_vals\<close>; the caller sorts). For every non-empty list and every \<open>q\<close> in
  \<open>[0, 1]\<close> it returns the linear interpolation, at the fractional rank
  \<open>pos = (n - 1) * q\<close>, between the values at the floor and the ceiling of \<open>pos\<close> in the
  list as given; when the list is sorted ascending this is the interpolated order
  statistic of the specification. On \<open>[1, 2, 3, 4]\<close> it returns \<open>2.5\<close> for \<open>q = 0.5\<close>,
  \<open>1\<close> for \<open>q = 0\<close> and \<open>4\<close> for \<open>q = 1\<close>.
\<close>

theorem quantile_sorted_interpolates:
  assumes "vs \<noteq> []" "0 \<le> q" "q \<le> 1"
  shows "quantile vs q = Inr (interpolate vs (real (length vs - 1) * q)) \<and>
         (sorted vs \<longrightarrow> quantile vs q = Inr (quantile_spec vs q)) \<and>
         quantile [1, 2, 3, 4] (1/2) = Inr (5/2) \<and>
         quantile [1, 2, 3, 4] 0 = Inr 1 \<and>
         quantile [1, 2, 3, 4] 1 = Inr 4"
  using quantile_interpolate[OF assms] quantile_sorted[OF assms] quantile_examples
  by blast

text \<open>The theorem at the sorted list \<open>[1, 3, 7]\<close> and \<open>q = 1/4\<close>: the result is \<open>2\<close>.\<close>

theorem quantile_sorted_interpolates_witness:
  "[1, 3, 7] \<noteq> ([]::int list) \<and> (0::real) \<le> 1/4 \<and> (1/4::real) \<le> 1 \<and> sorted [1, 3, 7::int] \<and>
   quantile [1, 3, 7] (1/4) = Inr (quantile_spec [1, 3, 7] (1/4)) \<and>
   quantile_spec [1, 3, 7] (1/4) = 2"
proof -
  have h: "[1, 3, 7] \<noteq> ([]::int list)" "(0::real) \<le> 1/4" "(1/4::real) \<le> 1" by simp_all
  have s: "sorted [1, 3, 7::int]" by simp
  have v: "quantile_spec [1, 3, 7] (1/4) = 2"
    by (simp add: quantile_spec_def interpolate_def Let_def)
  from quantile_sorted_interpolates[OF h] s
  have "quantile [1, 3, 7] (1/4) = Inr (quantile_spec [1, 3, 7] (1/4))" by blast
  with h s v show ?thesis by blast
qed

text \<open>
  Claim C2 as stated fails on an unordered list: on \<open>[4, 3, 2, 1]\<close> with \<open>q = 0\<close> the
  code returns the first element, \<open>4\<close>, while the order statistic is the minimum, \<open>1\<close>.
\<close>

theorem quantile_unsorted_counterexample:
  "quantile [4, 3, 2, 1] 0 = Inr 4 \<and> quantile_spec [4, 3, 2, 1] 0 = 1"
  by (simp add: quantile_def getitem_def py_int_def Let_def quantile_spec_def interpolate_def)

text \<open>
  Claim C3, as the code has it. For every valid list (no negative probability, sum at
  most 1) the outcomes returned are the players' names followed by exactly one synthetic
  outcome, the last element, whose name is "OTHER"; its weight is 1 minus the sum of
  the target probabilities, and it is 0 when that sum is exactly 1.
\<close>

theorem build_distribution_other_last:
  assumes "\<not> (\<exists>pl \<in> set players. p pl < 0)" "sum_list (map p players) \<le> 1"
  shows "\<exists>weights. build_distribution players = Inr (map name players @ [''OTHER''], weights) \<and>
           length weights = length players + 1 \<and>
           last weights = 1 - sum_list (map p players) \<and>
           (sum_list (map p players) = 1 \<longrightarrow> last weights = 0)"
  using build_distribution_valid[OF assms] by simp

text \<open>
  The theorem at two players of probability \<open>1/2\<close> each: the outcomes are
  \<open>A\<close>, \<open>B\<close>, \<open>OTHER\<close>, and the last weight is 0.
\<close>

theorem build_distribution_other_last_witness:
  "\<not> (\<exists>pl \<in> set [player ''A'' (1/2), player ''B'' (1/2)]. p pl < 0) \<and>
   sum_list (map p [player ''A'' (1/2), player ''B'' (1/2)]) = 1 \<and>
   (\<exists>weights. build_distribution [player ''A'' (1/2), player ''B'' (1/2)]
                = Inr ([''A'', ''B'', ''OTHER''], weights) \<and> last weights = 0)"
proof -
  let ?ps = "[player ''A'' (1/2), player ''B'' (1/2)]"
  have a: "\<not> (\<exists>pl \<in> set ?ps. p pl < 0)" by (simp add: player_def)
  have s: "sum_list (map p ?ps) = 1" by (simp add: player_def)
  then have b: "sum_list (map p ?ps) \<le> 1" by simp
  have n: "map name ?ps @ [''OTHER''] = [''A'', ''B'', ''OTHER'']" by (simp add: player_def)
  from build_distribution_other_last[OF a b] s
  have "\<exists>weights. build_distribution ?ps = Inr (map name ?ps @ [''OTHER''], weights) \<and>
          last weights = 0" by auto
  with a s show ?thesis unfolding n by blast
qed

text \<open>
  Claim C3 as stated fails: the synthetic outcome is named "OTHER", and no outcome of
  the distribution built from one player \<open>A\<close> of probability \<open>1/2\<close> is named "NONE".
\<close>

theorem build_distribution_none_counterexample:
  "build_distribution [player ''A'' (1/2)] = Inr ([''A'', ''OTHER''], [1/2, 1/2]) \<and>
   ''NONE'' \<notin> set [''A'', ''OTHER'']"
  by (simp add: build_distribution_def player_def Let_def)

text \<open>
  Claim C4. For every valid list the builder returns outcomes and weights of the same
  length, the number of players plus one; each weight is the raw weight divided by the
  sum of the raw weights (which is not zero); and the weights sum to 1 exactly, hence
  within \<open>1e-9\<close> of 1.
\<close>

theorem build_distribution_normalized:
  assumes "\<not> (\<exists>pl \<in> set players. p pl < 0)" "sum_list (map p players) \<le> 1"
  shows "\<exists>outcomes weights.
           build_distribution players = Inr (outcomes, weights) \<and>
           length outcomes = length players + 1 \<and>
           length weights = length players + 1 \<and>
           sum_list (map p players @ [1 - sum_list (map p players)]) \<noteq> 0 \<and>
           weights = map (\<lambda>w. w / sum_list (map p players @ [1 - sum_list (map p players)]))
                         (map p players @ [1 - sum_list (map p players)]) \<and>
           sum_list weights = 1 \<and>
           \<bar>sum_list weights - 1\<bar> \<le> 1 / 10 ^ 9"
  using build_distribution_valid[OF assms] by simp

text \<open>
  The theorem at the players \<open>A\<close> of probability \<open>0.5\<close> and \<open>B\<close> of probability \<open>0.3\<close>.
\<close>

theorem build_distribution_normalized_witness:
  "\<not> (\<exists>pl \<in> set [player ''A'' (1/2), player ''B'' (3/10)]. p pl < 0) \<and>
   sum_list (map p [player ''A'' (1/2), player ''B'' (3/10)]) \<le> 1 \<and>
   (\<exists>outcomes weights.
      build_distribution [player ''A'' (1/2), player ''B'' (3/10)] = Inr (outcomes, weights) \<and>
      length outcomes = 3 \<and> length weights = 3 \<and> sum_list weights = 1)"
proof -
  let ?ps = "[player ''A'' (1/2), player ''B'' (3/10)]"
  have a: "\<not> (\<exists>pl \<in> set ?ps. p pl < 0)" by (simp add: player_def)
  have b: "sum_list (map p ?ps) \<le> 1" by (simp add: player_def)
  have l: "length ?ps + 1 = 3" by simp
  from build_distribution_normalized[OF a b]
  have "\<exists>outcomes weights. build_distribution ?ps = Inr (outcomes, weights) \<and>
      length outcomes = length ?ps + 1 \<and> length weights = length ?ps + 1 \<and> sum_list weights = 1"
    by blast
  with a b show ?thesis unfolding l by blast
qed

text \<open>
  Claim C5. The result of a batch is fixed by the item list, the trial count and the
  seed. Two executions with the same three inputs, whose \<open>random.Random(seed)\<close> is the
  same generator, end the same way (the same result sequence, the same error, or neither
  returns), whatever else differs between them: the generator an unseeded
  \<open>random.Random()\<close> would give is never used. And the trials consume the one generator
  seeded at the start in sequence: in a batch that returns \<open>rs\<close>, trial \<open>i\<close> is the single
  trial started on the seeded generator advanced by the draws of the trials before it,
  returns \<open>rs ! i\<close>, and advances the generator by that many draws.
\<close>

theorem run_many_trials_deterministic:
  "(seeded lib1 seed = seeded lib2 seed \<longrightarrow>
      map_option (map_sum id fst) (run_many_trials lib1 players n seed b1) =
      map_option (map_sum id fst) (run_many_trials lib2 players n seed b2)) \<and>
   (run_many_trials lib players n seed b = Some (Inr (rs, b')) \<longrightarrow>
      length rs = nat n \<and>
      (\<forall>i<length rs.
         run_single_trial lib players
             (Some (advance (sum_list (take i rs)) (seeded lib seed))) (b + i)
           = Some (Inr (rs ! i, advance (sum_list (take (Suc i) rs)) (seeded lib seed),
                       b + i + 1))))"
  using run_many_trials_indep[of lib1 seed lib2 players n b1 b2]
    run_many_trials_sequential[of lib players n seed b rs b']
  by blast

text \<open>
  The theorem at the players \<open>A\<close> and \<open>B\<close> of probability \<open>1/2\<close> each, two trials and the
  seed 42: an execution with another unseeded generator returns the same \<open>[2, 2]\<close>, and
  the second trial is the single trial started after the 2 draws of the first.
\<close>

theorem run_many_trials_deterministic_witness:
  "seeded lib_alt 42 = seeded (lib_alt\<lparr>unseeded := gen_const (1/2)\<rparr>) 42 \<and>
   map_option (map_sum id fst)
     (run_many_trials (lib_alt\<lparr>unseeded := gen_const (1/2)\<rparr>)
        [player ''A'' (1/2), player ''B'' (1/2)] 2 42 7) = Some (Inr [2, 2]) \<and>
   run_many_trials lib_alt [player ''A'' (1/2), player ''B'' (1/2)] 2 42 0
     = Some (Inr ([2, 2], 2)) \<and>
   run_single_trial lib_alt [player ''A'' (1/2), player ''B'' (1/2)]
       (Some (advance 2 (seeded lib_alt 42))) 1
     = Some (Inr (2, advance 4 (seeded lib_alt 42), 2))"
proof -
  let ?ps = "[player ''A'' (1/2), player ''B'' (1/2)]"
  let ?lib2 = "lib_alt\<lparr>unseeded := gen_const (1/2)\<rparr>"
  have s: "seeded lib_alt 42 = seeded ?lib2 42" by simp
  note e = batch_alt_example
  from run_many_trials_deterministic[THEN conjunct1, rule_format, OF s, of ?ps 2 0 7]
  have 1: "map_option (map_sum id fst) (run_many_trials ?lib2 ?ps 2 42 7) = Some (Inr [2, 2])"
    by (simp add: e)
  from run_many_trials_deterministic[THEN conjunct2, rule_format, OF e, THEN conjunct2,
      rule_format, of 1]
  have "run_single_trial lib_alt ?ps
             (Some (advance (sum_list (take 1 [2, 2])) (seeded lib_alt 42))) (0 + 1)
           = Some (Inr ([2, 2] ! 1, advance (sum_list (take (Suc 1) [2, 2])) (seeded lib_alt 42),
                       0 + 1 + 1))"
    by simp
  then have 2: "run_single_trial lib_alt ?ps (Some (advance 2 (seeded lib_alt 42))) 1
     = Some (Inr (2, advance 4 (seeded lib_alt 42), 2))"
    by simp
  from s 1 e 2 show ?thesis by blast
qed

text \<open>
  Claim C6. \<open>_build_distribution\<close> raises the \<open>ValueError\<close> "Probabilities must be
  non-negative." (\<open>InvalidProbability\<close>) exactly when some probability is negative.
  When none is negative it raises the \<open>ValueError\<close> "Sum of target probabilities exceeds
  1.0: ..." (\<open>ProbabilityBudgetExceeded\<close>, carrying the sum) exactly when the sum of the
  probabilities is greater than 1, with no tolerance. It returns a distribution in
  exactly the remaining case: no negative probability and a sum of at most 1.
\<close>

theorem build_distribution_errors:
  "(build_distribution players = Inl InvalidProbability \<longleftrightarrow> (\<exists>pl \<in> set players. p pl < 0)) \<and>
   (\<not> (\<exists>pl \<in> set players. p pl < 0) \<longrightarrow>
      (build_distribution players = Inl (ProbabilityBudgetExceeded (sum_list (map p players)))
         \<longleftrightarrow> 1 < sum_list (map p players)) \<and>
      ((\<exists>x. build_distribution players = Inl (ProbabilityBudgetExceeded x))
         \<longleftrightarrow> 1 < sum_list (map p players))) \<and>
   ((\<exists>d. build_distribution players = Inr d) \<longleftrightarrow>
      \<not> (\<exists>pl \<in> set players. p pl < 0) \<and> sum_list (map p players) \<le> 1)"
  using build_distribution_cases[of players] build_distribution_exceeds[of players]
  by blast

text \<open>
  The theorem at a list with the probability \<open>-0.1\<close>, at a list whose probabilities sum
  to \<open>1.1\<close>, and at a valid list.
\<close>

theorem build_distribution_errors_witness:
  "build_distribution [player ''A'' (1/2), player ''B'' (-1/10)] = Inl InvalidProbability \<and>
   build_distribution [player ''A'' (6/10), player ''B'' (5/10)]
     = Inl (ProbabilityBudgetExceeded (11/10)) \<and>
   (\<exists>d. build_distribution [player ''A'' (1/2), player ''B'' (3/10)] = Inr d)"
proof -
  let ?neg = "[player ''A'' (1/2), player ''B'' (-1/10)]"
  let ?big = "[player ''A'' (6/10), player ''B'' (5/10)]"
  let ?ok = "[player ''A'' (1/2), player ''B'' (3/10)]"
  have n: "\<exists>pl \<in> set ?neg. p pl < 0" by (simp add: player_def)
  have b: "\<not> (\<exists>pl \<in> set ?big. p pl < 0)" by (simp add: player_def)
  have s: "sum_list (map p ?big) = 11/10" by (simp add: player_def)
  have gt: "1 < sum_list (map p ?big)" unfolding s by simp
  have k: "\<not> (\<exists>pl \<in> set ?ok. p pl < 0) \<and> sum_list (map p ?ok) \<le> 1"
    by (simp add: player_def)
  from n build_distribution_errors[of ?neg]
  have 1: "build_distribution ?neg = Inl InvalidProbability" by blast
  from b gt build_distribution_errors[of ?big]
  have "build_distribution ?big = Inl (ProbabilityBudgetExceeded (sum_list (map p ?big)))"
    by blast
  then have 2: "build_distribution ?big = Inl (ProbabilityBudgetExceeded (11/10))"
    unfolding s .
  from k build_distribution_errors[of ?ok]
  have 3: "\<exists>d. build_distribution ?ok = Inr d" by blast
  from 1 2 3 show ?thesis by blast
qed

text \<open>
  Claim C7. \<open>quantile\<close> raises the \<open>ValueError\<close> "q must be within [0,1]"
  (\<open>InvalidQuantile\<close>) exactly when \<open>q\<close> is outside \<open>[0, 1]\<close>; it raises the
  \<open>ValueError\<close> "empty list" (\<open>EmptyResultSet\<close>) exactly when \<open>q\<close> is in range and the
  list is empty; on a non-empty list with \<open>q\<close> in range it returns a value.
\<close>

theorem quantile_error_cases:
  "(quantile vs q = Inl InvalidQuantile \<longleftrightarrow> \<not> (0 \<le> q \<and> q \<le> 1)) \<and>
   (quantile vs q = Inl EmptyResultSet \<longleftrightarrow> 0 \<le> q \<and> q \<le> 1 \<and> vs = []) \<and>
   (vs \<noteq> [] \<and> 0 \<le> q \<and> q \<le> 1 \<longrightarrow> (\<exists>v. quantile vs q = Inr v))"
proof -
  have ne: "InvalidQuantile \<noteq> EmptyResultSet"
    by (simp add: InvalidQuantile_def EmptyResultSet_def)
  show ?thesis
  proof (cases "0 \<le> q \<and> q \<le> 1")
    case False
    with quantile_out_of_range[OF False, of vs] ne show ?thesis by auto
  next
    case True
    show ?thesis
    proof (cases "vs = []")
      case e: True
      with True quantile_empty[of q] ne show ?thesis by auto
    next
      case e: False
      from quantile_value[OF e] True obtain v where "quantile vs q = Inr v" by blast
      with True e show ?thesis by auto
    qed
  qed
qed

text \<open>
  The theorem at \<open>q = 1.5\<close>, at the empty list, and at \<open>[1, 2, 3, 4]\<close> with
  \<open>q = 0.5\<close>.
\<close>

theorem quantile_error_cases_witness:
  "quantile [1, 2, 3, 4] (3/2) = Inl InvalidQuantile \<and>
   quantile [] (1/2) = Inl EmptyResultSet \<and>
   (\<exists>v. quantile [1, 2, 3, 4] (1/2) = Inr v)"
proof -
  have a: "\<not> (0 \<le> (3/2::real) \<and> (3/2::real) \<le> 1)" by simp
  have b: "0 \<le> (1/2::real) \<and> (1/2::real) \<le> 1 \<and> ([]::int list) = []" by simp
  have c: "[1, 2, 3, 4] \<noteq> ([]::int list) \<and> 0 \<le> (1/2::real) \<and> (1/2::real) \<le> 1" by simp
  from a quantile_error_cases[of "[1, 2, 3, 4]" "3/2"]
  have 1: "quantile [1, 2, 3, 4] (3/2) = Inl InvalidQuantile" by blast
  from b quantile_error_cases[of "[]" "1/2"]
  have 2: "quantile [] (1/2) = Inl EmptyResultSet" by blast
  from c quantile_error_cases[of "[1, 2, 3, 4]" "1/2"]
  have 3: "\<exists>v. quantile [1, 2, 3, 4] (1/2) = Inr v" by blast
  from 1 2 3 show ?thesis by blast
qed

text \<open>
  Claim C8. A step whose draw is the synthetic outcome "OTHER" leaves the collected set
  as it was (it only counts the draw and advances the generator). The loop returns at
  once, with the counter as it stands, in a state whose collected set equals the target
  set; and it returns \<open>(n, g)\<close> exactly when the first state in which the collected set
  equals the target set is reached after some \<open>k\<close> iterations, \<open>n\<close> being the counter
  plus \<open>k\<close> and \<open>g\<close> the generator after \<open>k\<close> draws. A trial starts with an empty
  collected set and the counter 0. It returns \<open>m\<close> exactly when the builder accepts the
  list, the first \<open>m\<close> draws without "OTHER" are exactly the target names and no shorter
  prefix of the draws is; the generator is then advanced by exactly \<open>m\<close> draws. And it
  runs forever exactly when the builder accepts the list and no prefix of the draws is
  the target set.
\<close>

theorem trial_loop_stops_when_collected:
  "(\<forall>g'. choices (gen st) outcomes probs = Inr (''OTHER'', g') \<longrightarrow>
      trial_step outcomes probs st =
        Inr \<lparr>collected = collected st, packs_opened = packs_opened st + 1, gen = g'\<rparr>) \<and>
   (collected st = t \<longrightarrow>
      trial_loop outcomes probs t st = Some (Inr (packs_opened st, gen st))) \<and>
   (trial_loop outcomes probs t st = Some (Inr (n, g)) \<longleftrightarrow>
      (\<exists>k st'. first_hit outcomes probs t st k st' \<and>
               n = packs_opened st + k \<and> g = advance k (gen st))) \<and>
   (\<forall>g0. g0 = (case rng of None \<Rightarrow> unseeded lib | Some r \<Rightarrow> r) \<longrightarrow>
      (\<forall>m g' b'.
         run_single_trial lib players rng b = Some (Inr (m, g', b')) \<longleftrightarrow>
           (\<exists>d. build_distribution players = Inr d) \<and>
           set (draws players g0 m) - {''OTHER''} = set (map name players) \<and>
           (\<forall>j<m. set (draws players g0 j) - {''OTHER''} \<noteq> set (map name players)) \<and>
           g' = advance m g0 \<and> b' = b + 1) \<and>
      (run_single_trial lib players rng b = None \<longleftrightarrow>
           (\<exists>d. build_distribution players = Inr d) \<and>
           (\<forall>k. set (draws players g0 k) - {''OTHER''} \<noteq> set (map name players))))"
proof (intro conjI allI impI)
  fix g' assume "choices (gen st) outcomes probs = Inr (''OTHER'', g')"
  then show "trial_step outcomes probs st =
        Inr \<lparr>collected = collected st, packs_opened = packs_opened st + 1, gen = g'\<rparr>"
    by (rule trial_step_other)
next
  assume "collected st = t"
  then show "trial_loop outcomes probs t st = Some (Inr (packs_opened st, gen st))"
    by (rule trial_loop_stop)
next
  show "trial_loop outcomes probs t st = Some (Inr (n, g)) \<longleftrightarrow>
      (\<exists>k st'. first_hit outcomes probs t st k st' \<and>
               n = packs_opened st + k \<and> g = advance k (gen st))"
    by (rule trial_loop_Inr_iff)
next
  fix g0 m g' b'
  assume g0: "g0 = (case rng of None \<Rightarrow> unseeded lib | Some r \<Rightarrow> r)"
  show "run_single_trial lib players rng b = Some (Inr (m, g', b')) \<longleftrightarrow>
           (\<exists>d. build_distribution players = Inr d) \<and>
           set (draws players g0 m) - {''OTHER''} = set (map name players) \<and>
           (\<forall>j<m. set (draws players g0 j) - {''OTHER''} \<noteq> set (map name players)) \<and>
           g' = advance m g0 \<and> b' = b + 1"
    by (rule run_single_trial_Inr_iff[OF g0])
next
  fix g0
  assume g0: "g0 = (case rng of None \<Rightarrow> unseeded lib | Some r \<Rightarrow> r)"
  show "run_single_trial lib players rng b = None \<longleftrightarrow>
           (\<exists>d. build_distribution players = Inr d) \<and>
           (\<forall>k. set (draws players g0 k) - {''OTHER''} \<noteq> set (map name players))"
    by (rule run_single_trial_None_iff[OF g0])
qed

text \<open>
  The theorem at a step that draws "OTHER" (the generator yields \<open>3/4\<close>, the weights are
  \<open>1/2\<close> and \<open>1/2\<close>): the collected set stays empty and the counter goes from 3 to 4. At
  a state whose collected set is already the target set: the loop returns the counter 3.
  At a loop run of two iterations, which draws \<open>A\<close> then \<open>B\<close> and returns 2, and at the
  trial that makes this run. And at a trial that never stops: the generator yields \<open>0\<close>
  forever, so every draw is \<open>A\<close> and \<open>B\<close> is never collected.
\<close>

theorem trial_loop_stops_when_collected_witness:
  "choices (gen_const (3/4)) [''A'', ''OTHER''] [1/2, 1/2]
     = Inr (''OTHER'', advance 1 (gen_const (3/4))) \<and>
   trial_step [''A'', ''OTHER''] [1/2, 1/2]
       \<lparr>collected = {}, packs_opened = 3, gen = gen_const (3/4)\<rparr>
     = Inr \<lparr>collected = {}, packs_opened = 4, gen = advance 1 (gen_const (3/4))\<rparr> \<and>
   trial_loop [''A'', ''OTHER''] [1/2, 1/2] {''A''}
       \<lparr>collected = {''A''}, packs_opened = 3, gen = gen_alt\<rparr>
     = Some (Inr (3, gen_alt)) \<and>
   trial_loop [''A'', ''B'', ''OTHER''] [1/2, 1/2, 0] {''A'', ''B''}
       \<lparr>collected = {}, packs_opened = 0, gen = gen_alt\<rparr>
     = Some (Inr (2, advance 2 gen_alt)) \<and>
   run_single_trial lib_alt [player ''A'' (1/2), player ''B'' (1/2)] (Some gen_alt) 0
     = Some (Inr (2, advance 2 gen_alt, 1)) \<and>
   run_single_trial lib_alt [player ''A'' (1/2), player ''B'' (1/4)] (Some (gen_const 0)) 0
     = None"
proof -
  let ?o = "[''A'', ''OTHER'']" and ?p = "[1/2, 1/2 :: real]"
  let ?s1 = "\<lparr>collected = {}, packs_opened = 3, gen = gen_const (3/4)\<rparr>"
  let ?s2 = "\<lparr>collected = {''A''}, packs_opened = 3, gen = gen_alt\<rparr>"
  have c: "choices (gen ?s1) ?o ?p = Inr (''OTHER'', advance 1 (gen_const (3/4)))"
    by (simp add: choices_def accumulate_def rng_random_def gen_const_def Let_def
        bisect.simps advance_def)
  have "trial_step ?o ?p ?s1 =
          Inr \<lparr>collected = collected ?s1, packs_opened = packs_opened ?s1 + 1,
               gen = advance 1 (gen_const (3/4))\<rparr>"
    by (rule trial_loop_stops_when_collected[THEN conjunct1, rule_format, OF c])
  then have 1: "trial_step ?o ?p ?s1 =
      Inr \<lparr>collected = {}, packs_opened = 4, gen = advance 1 (gen_const (3/4))\<rparr>"
    by simp
  have h: "collected ?s2 = {''A''}" by simp
  have "trial_loop ?o ?p {''A''} ?s2 = Some (Inr (packs_opened ?s2, gen ?s2))"
    by (rule trial_loop_stops_when_collected[THEN conjunct2, THEN conjunct1, rule_format, OF h])
  then have 2: "trial_loop ?o ?p {''A''} ?s2 = Some (Inr (3, gen_alt))" by simp
  from c have 0: "choices (gen_const (3/4)) ?o ?p = Inr (''OTHER'', advance 1 (gen_const (3/4)))"
    by simp
  let ?o3 = "[''A'', ''B'', ''OTHER'']" and ?p3 = "[1/2, 1/2, 0 :: real]"
  let ?s0 = "\<lparr>collected = {}, packs_opened = 0, gen = gen_alt\<rparr>"
  let ?s' = "\<lparr>collected = {''A'', ''B''}, packs_opened = packs_opened ?s0 + 2,
              gen = advance 2 (gen ?s0)\<rparr>"
  have ab: "{''A''} \<noteq> {''A'', ''B''}" by auto
  have seen0: "seen ?o3 ?p3 ?s0 0 = {}"
    and seen1: "seen ?o3 ?p3 ?s0 (Suc 0) = {''A''}"
    and seen2: "seen ?o3 ?p3 ?s0 2 = {''A'', ''B''}"
    by (simp_all add: seen_def draws_of_alt_example numeral_2_eq_2)
  have before: "\<forall>j<2. seen ?o3 ?p3 ?s0 j \<noteq> {''A'', ''B''}"
  proof (intro allI impI)
    fix j :: nat assume "j < 2"
    then consider "j = 0" | "j = Suc 0" by linarith
    then show "seen ?o3 ?p3 ?s0 j \<noteq> {''A'', ''B''}"
      using seen0 seen1 ab by cases simp_all
  qed
  have fh: "first_hit ?o3 ?p3 {''A'', ''B''} ?s0 2 ?s'"
    using seen2 before by (subst first_hit_valid) simp_all
  have "\<exists>k st'. first_hit ?o3 ?p3 {''A'', ''B''} ?s0 k st' \<and>
          2 = packs_opened ?s0 + k \<and> advance 2 gen_alt = advance k (gen ?s0)"
    using fh by (intro exI[of _ 2] exI[of _ ?s']) simp
  then have 3: "trial_loop ?o3 ?p3 {''A'', ''B''} ?s0 = Some (Inr (2, advance 2 gen_alt))"
    by (rule trial_loop_stops_when_collected[THEN conjunct2, THEN conjunct2, THEN conjunct1,
          THEN iffD2])
  let ?ps = "[player ''A'' (1/2), player ''B'' (1/2)]"
  have g: "gen_alt = (case Some gen_alt of None \<Rightarrow> unseeded lib_alt | Some r \<Rightarrow> r)" by simp
  have d: "draws ?ps gen_alt j = draws_of ?o3 ?p3 gen_alt j" for j
    by (simp add: draws_def build_alt_example)
  have names: "set (map name ?ps) = {''A'', ''B''}" by (simp add: player_def)
  have bd: "\<exists>d. build_distribution ?ps = Inr d" using build_alt_example by blast
  have hit: "set (draws ?ps gen_alt 2) - {''OTHER''} = set (map name ?ps)"
    unfolding d names using seen2 by (simp add: seen_def)
  have nohit: "\<forall>j<2. set (draws ?ps gen_alt j) - {''OTHER''} \<noteq> set (map name ?ps)"
    unfolding d names using before by (simp add: seen_def)
  have "run_single_trial lib_alt ?ps (Some gen_alt) 0 = Some (Inr (2, advance 2 gen_alt, 0 + 1))"
    using bd hit nohit
    by (intro trial_loop_stops_when_collected[THEN conjunct2, THEN conjunct2, THEN conjunct2,
          rule_format, OF g, THEN conjunct1, rule_format, THEN iffD2]) simp
  then have 4: "run_single_trial lib_alt ?ps (Some gen_alt) 0
      = Some (Inr (2, advance 2 gen_alt, 1))" by simp
  let ?qs = "[player ''A'' (1/2), player ''B'' (1/4)]"
  have g': "gen_const 0 = (case Some (gen_const 0) of None \<Rightarrow> unseeded lib_alt | Some r \<Rightarrow> r)"
    by simp
  have bq: "\<exists>d. build_distribution ?qs = Inr d"
    by (simp add: build_distribution_def player_def Let_def)
  have nq: "set (map name ?qs) = {''A'', ''B''}" by (simp add: player_def)
  have never: "\<forall>k. set (draws ?qs (gen_const 0) k) - {''OTHER''} \<noteq> set (map name ?qs)"
    unfolding nq
  proof
    fix k
    have "''B'' \<notin> set (draws ?qs (gen_const 0) k)" using constant_generator_draws[of k] by auto
    then show "set (draws ?qs (gen_const 0) k) - {''OTHER''} \<noteq> {''A'', ''B''}" by auto
  qed
  have 5: "run_single_trial lib_alt ?qs (Some (gen_const 0)) 0 = None"
    using bq never
    by (intro trial_loop_stops_when_collected[THEN conjunct2, THEN conjunct2, THEN conjunct2,
          rule_format, OF g', THEN conjunct2, THEN iffD2]) simp
  from 0 1 2 3 4 5 show ?thesis by blast
qed

text \<open>
  Claim C9, as the code has it. \<open>run_many_trials\<close> calls \<open>run_single_trial\<close> for every
  trial, and every call builds the distribution: a batch that returns has built it once
  per trial. This is result-equivalent to the variant of the specification, which builds
  it once per batch: for the same inputs and seed both end the same way, with the same
  result sequence, the same error, or neither returning.
\<close>

theorem run_many_trials_rebuilds_per_trial:
  "map_option (map_sum id fst) (run_many_trials lib players n seed b) =
     map_option (map_sum id fst) (run_many_trials_build_once lib players n seed b) \<and>
   (run_many_trials lib players n seed b = Some (Inr (rs, b')) \<longrightarrow> b' = b + nat n) \<and>
   (run_many_trials_build_once lib players n seed b = Some (Inr (rs', b'')) \<longrightarrow> b'' = b + 1)"
  using run_many_trials_eq_build_once[of lib players n seed b]
    run_many_trials_builds[of lib players n seed b rs b']
    run_many_trials_build_once_builds[of lib players n seed b rs' b'']
  by blast

text \<open>
  The theorem at the players \<open>A\<close> and \<open>B\<close> of probability \<open>1/2\<close> each, two trials and the
  seed 42: the batch returns \<open>[2, 2]\<close> after two builds, and the build-once variant
  returns \<open>[2, 2]\<close> too.
\<close>

theorem run_many_trials_rebuilds_per_trial_witness:
  "run_many_trials lib_alt [player ''A'' (1/2), player ''B'' (1/2)] 2 42 0
     = Some (Inr ([2, 2], 0 + nat 2)) \<and>
   map_option (map_sum id fst)
     (run_many_trials_build_once lib_alt [player ''A'' (1/2), player ''B'' (1/2)] 2 42 0)
     = Some (Inr [2, 2])"
proof -
  let ?ps = "[player ''A'' (1/2), player ''B'' (1/2)]"
  note e = batch_alt_example
  note t = run_many_trials_rebuilds_per_trial[of lib_alt ?ps 2 42 0]
  from t[THEN conjunct1] e
  have 1: "map_option (map_sum id fst) (run_many_trials_build_once lib_alt ?ps 2 42 0)
     = Some (Inr [2, 2])" by simp
  from t[THEN conjunct2, THEN conjunct1, rule_format, OF e] e
  have 2: "run_many_trials lib_alt ?ps 2 42 0 = Some (Inr ([2, 2], 0 + nat 2))" by simp
  from 1 2 show ?thesis by blast
qed

text \<open>
  Claim C9 as stated fails: a batch of two trials calls \<open>_build_distribution\<close> twice (the
  last component of the result counts the calls), not once.
\<close>

theorem run_many_trials_build_once_counterexample:
  "run_many_trials lib_alt [player ''A'' (1/2), player ''B'' (1/2)] 2 42 0
     = Some (Inr ([2, 2], 2))"
  by (rule batch_alt_example)

text \<open>
  Claim C10. Take a list with a player named "OTHER". The builder accepts or rejects it
  by its probabilities alone (there is no check of the names); no step ever adds
  "OTHER" to the collected set; and \<open>run_single_trial\<close>, whatever the generator, raises
  the builder's error when the probabilities are rejected and otherwise never returns.
\<close>

theorem other_named_player_never_returns:
  assumes "''OTHER'' \<in> set (map name players)"
  shows "((\<exists>d. build_distribution players = Inr d) \<longleftrightarrow>
            \<not> (\<exists>pl \<in> set players. p pl < 0) \<and> sum_list (map p players) \<le> 1) \<and>
         (\<forall>outcomes probs st st'.
            trial_step outcomes probs st = Inr st' \<longrightarrow> ''OTHER'' \<notin> collected st \<longrightarrow>
            ''OTHER'' \<notin> collected st') \<and>
         run_single_trial lib players rng b =
           (case build_distribution players of Inl e \<Rightarrow> Some (Inl e) | Inr d \<Rightarrow> None)"
  using build_distribution_cases[of players] trial_step_keeps_other_out
    run_single_trial_other[OF assms]
  by blast

text \<open>
  The theorem at the single player "OTHER" of probability \<open>1/2\<close>: the builder accepts the
  list and the trial does not return.
\<close>

theorem other_named_player_never_returns_witness:
  "''OTHER'' \<in> set (map name [player ''OTHER'' (1/2)]) \<and>
   (\<exists>d. build_distribution [player ''OTHER'' (1/2)] = Inr d) \<and>
   run_single_trial lib_alt [player ''OTHER'' (1/2)] None 0 = None"
proof -
  let ?ps = "[player ''OTHER'' (1/2)]"
  have h: "''OTHER'' \<in> set (map name ?ps)" by (simp add: player_def)
  have v: "\<not> (\<exists>pl \<in> set ?ps. p pl < 0) \<and> sum_list (map p ?ps) \<le> 1"
    by (simp add: player_def)
  note t = other_named_player_never_returns[OF h, of lib_alt None 0]
  from t v have b: "\<exists>d. build_distribution ?ps = Inr d" by blast
  from t have "run_single_trial lib_alt ?ps None 0 =
      (case build_distribution ?ps of Inl e \<Rightarrow> Some (Inl e) | Inr d \<Rightarrow> None)" by blast
  with b have "run_single_trial lib_alt ?ps None 0 = None" by auto
  with h b show ?thesis by blast
qed

end
